theory Spec2Isabelle
  imports Main
begin

section \<open>JavaScript strings\<close>

text \<open>
  A JavaScript string is a sequence of UTF-16 code units; a code unit is modelled as
  a natural number. \<open>js\<close> turns a literal of the theory into such a string.
\<close>

type_synonym jsstring = "nat list"

definition js :: "string \<Rightarrow> jsstring" where
  "js s = map of_char s"

text \<open>
  The white space of \<^verbatim>\<open>String.prototype.trim\<close> and of the regular expression class
  \<^verbatim>\<open>\s\<close> (the same set: white space and line terminators).
\<close>

definition is_space :: "nat \<Rightarrow> bool" where
  "is_space c \<longleftrightarrow>
     c \<in> {9, 10, 11, 12, 13, 32, 160, 5760, 8232, 8233, 8239, 8287, 12288, 65279}
     \<or> (8192 \<le> c \<and> c \<le> 8202)"

text \<open>The class \<^verbatim>\<open>\w\<close> without the unicode flag: \<^verbatim>\<open>[A-Za-z0-9_]\<close>.\<close>

definition is_word :: "nat \<Rightarrow> bool" where
  "is_word c \<longleftrightarrow>
     (48 \<le> c \<and> c \<le> 57) \<or> (65 \<le> c \<and> c \<le> 90) \<or> c = 95 \<or> (97 \<le> c \<and> c \<le> 122)"

abbreviation hyphen :: nat where
  "hyphen \<equiv> 45"

abbreviation is_hyphen :: "nat \<Rightarrow> bool" where
  "is_hyphen \<equiv> (\<lambda>c. c = hyphen)"

definition drop_trailing :: "('a \<Rightarrow> bool) \<Rightarrow> 'a list \<Rightarrow> 'a list" where
  "drop_trailing P xs = rev (dropWhile P (rev xs))"

text \<open>\<^verbatim>\<open>s.trim()\<close>\<close>

definition trim :: "jsstring \<Rightarrow> jsstring" where
  "trim s = drop_trailing is_space (dropWhile is_space s)"

text \<open>
  The decimal rendering of a loop counter or an index inside a template literal
  (\<^verbatim>\<open>`${slug}-${counter}`\<close>). Counters are natural numbers: the model covers
  the range in which a JavaScript number is an exact integer.
\<close>

function decimal :: "nat \<Rightarrow> jsstring" where
  "decimal n = (if n < 10 then [48 + n] else decimal (n div 10) @ [48 + n mod 10])"
  by pat_completeness auto
termination
  by (relation "measure id") auto

declare decimal.simps [simp del]

text \<open>
  \<^verbatim>\<open>toLowerCase\<close> and \<^verbatim>\<open>toUpperCase\<close> are builtins of the runtime (the Unicode case
  mapping); the functions of the program take them as a parameter. On strings of ASCII
  code units the builtins are the two functions below, which the concrete scenarios use.
\<close>

definition ascii_toLowerCase :: "jsstring \<Rightarrow> jsstring" where
  "ascii_toLowerCase s = map (\<lambda>c. if 65 \<le> c \<and> c \<le> 90 then c + 32 else c) s"

definition ascii_toUpperCase :: "jsstring \<Rightarrow> jsstring" where
  "ascii_toUpperCase s = map (\<lambda>c. if 97 \<le> c \<and> c \<le> 122 then c - 32 else c) s"


section \<open>slugify\<close>

text \<open>
  \<^verbatim>\<open>.replace(/[\s]+/g, '-')\<close>: every maximal run of white space becomes one hyphen.
\<close>

function replace_space_runs :: "jsstring \<Rightarrow> jsstring" where
  "replace_space_runs [] = []"
| "replace_space_runs (c # cs) =
     (if is_space c then hyphen # replace_space_runs (dropWhile is_space cs)
      else c # replace_space_runs cs)"
  by pat_completeness auto
termination
  by (relation "measure length") (auto simp: le_imp_less_Suc length_dropWhile_le)

text \<open>
  \<^verbatim>\<open>.replace(/[^\w\u4e00-\u9fa5-]/g, '')\<close> deletes every code unit that is not kept
  by \<open>keep_char\<close>: a word character, a code unit of the range U+4E00 to U+9FA5, or a
  hyphen.
\<close>

definition keep_char :: "nat \<Rightarrow> bool" where
  "keep_char c \<longleftrightarrow> is_word c \<or> (19968 \<le> c \<and> c \<le> 40869) \<or> c = hyphen"

text \<open>
  \<^verbatim>\<open>.replace(/--+/g, '-')\<close>: every maximal run of two or more hyphens becomes one
  hyphen.
\<close>

function collapse_hyphens :: "jsstring \<Rightarrow> jsstring" where
  "collapse_hyphens (c # d # cs) =
     (if c = hyphen \<and> d = hyphen then hyphen # collapse_hyphens (dropWhile is_hyphen cs)
      else c # collapse_hyphens (d # cs))"
| "collapse_hyphens [c] = [c]"
| "collapse_hyphens [] = []"
  by pat_completeness auto
termination
  by (relation "measure length") (auto simp: le_imp_less_Suc le_SucI length_dropWhile_le)

text \<open>\<^verbatim>\<open>.replace(/^-+|-+$/g, '')\<close>: the leading and the trailing run of hyphens go.\<close>

definition trim_hyphens :: "jsstring \<Rightarrow> jsstring" where
  "trim_hyphens s = drop_trailing is_hyphen (dropWhile is_hyphen s)"

text \<open>
  \<^verbatim>\<open>
  function slugify(text) {
      return text
          .toLowerCase()
          .trim()
          .replace(/[\s]+/g, '-')
          .replace(/[^\w\u4e00-\u9fa5-]/g, '')
          .replace(/--+/g, '-')
          .replace(/^-+|-+$/g, '');
  }
  \<close>
\<close>

definition slugify :: "(jsstring \<Rightarrow> jsstring) \<Rightarrow> jsstring \<Rightarrow> jsstring" where
  "slugify toLowerCase text =
     trim_hyphens (collapse_hyphens (filter keep_char
       (replace_space_runs (trim (toLowerCase text)))))"

text \<open>
  The steps as the specification words them, each written on its own and not in terms of
  the functions above.

  "Collapsing whitespace runs to single hyphens": a white space character gives a hyphen
  where it opens a run and nothing inside a run; the flag says whether the character
  before was white space.
\<close>

fun spec_hyphenate_space :: "bool \<Rightarrow> jsstring \<Rightarrow> jsstring" where
  "spec_hyphenate_space in_run [] = []"
| "spec_hyphenate_space in_run (c # cs) =
     (if is_space c then (if in_run then [] else [hyphen]) @ spec_hyphenate_space True cs
      else c # spec_hyphenate_space False cs)"

text \<open>
  "Stripping characters outside word-characters/hyphen (preserving a defined non-Latin
  script range)": the characters that stay are the digits, the letters of either case,
  the underscore, the hyphen and the range U+4E00 to U+9FA5.
\<close>

definition spec_allowed :: "nat \<Rightarrow> bool" where
  "spec_allowed c \<longleftrightarrow> c \<in> {48..57} \<union> {65..90} \<union> {97..122} \<union> {95, 45} \<union> {19968..40869}"

text \<open>"Collapsing repeated hyphens": a hyphen that another hyphen follows is dropped.\<close>

fun spec_collapse_repeated :: "jsstring \<Rightarrow> jsstring" where
  "spec_collapse_repeated (c # d # cs) =
     (if c = hyphen \<and> d = hyphen then spec_collapse_repeated (d # cs)
      else c # spec_collapse_repeated (d # cs))"
| "spec_collapse_repeated cs = cs"

text \<open>"Trimming leading/trailing hyphens".\<close>

fun spec_drop_leading_hyphens :: "jsstring \<Rightarrow> jsstring" where
  "spec_drop_leading_hyphens [] = []"
| "spec_drop_leading_hyphens (c # cs) =
     (if c = hyphen then spec_drop_leading_hyphens cs else c # cs)"

fun spec_drop_trailing_hyphens :: "jsstring \<Rightarrow> jsstring" where
  "spec_drop_trailing_hyphens [] = []"
| "spec_drop_trailing_hyphens (c # cs) =
     (if c = hyphen \<and> spec_drop_trailing_hyphens cs = [] then []
      else c # spec_drop_trailing_hyphens cs)"

text \<open>
  The slug of the specification: lower-casing, then the four steps in its order. The
  specification names no trimming of white space.
\<close>

definition spec_slug :: "(jsstring \<Rightarrow> jsstring) \<Rightarrow> jsstring \<Rightarrow> jsstring" where
  "spec_slug lc text =
     spec_drop_trailing_hyphens (spec_drop_leading_hyphens (spec_collapse_repeated
       (filter spec_allowed (spec_hyphenate_space False (lc text)))))"


section \<open>The unique identifier loop\<close>

lemma decimal_not_Nil: "decimal n \<noteq> []"
  by (subst decimal.simps) simp

lemma decimal_inject: "decimal m = decimal n \<Longrightarrow> m = n"
proof (induction m arbitrary: n rule: decimal.induct)
  case (1 m)
  show ?case
  proof (cases "m < 10")
    case m: True
    show ?thesis
    proof (cases "n < 10")
      case True
      with m 1(2) show ?thesis by (simp add: decimal.simps[of m] decimal.simps[of n])
    next
      case False
      with m 1(2) decimal_not_Nil[of "n div 10"] show ?thesis
        by (simp add: decimal.simps[of m] decimal.simps[of n])
    qed
  next
    case m: False
    show ?thesis
    proof (cases "n < 10")
      case True
      with m 1(2) decimal_not_Nil[of "m div 10"] show ?thesis
        by (simp add: decimal.simps[of m] decimal.simps[of n])
    next
      case False
      with m 1(2) have eq: "decimal (m div 10) = decimal (n div 10)" "m mod 10 = n mod 10"
        by (simp_all add: decimal.simps[of m] decimal.simps[of n])
      from 1(1)[OF m eq(1)] have "m div 10 = n div 10" .
      with eq(2) show ?thesis by (metis div_mult_mod_eq)
    qed
  qed
qed

lemma suffixed_inject: "slug @ hyphen # decimal j = slug @ hyphen # decimal k \<Longrightarrow> j = k"
  by (simp add: decimal_inject)

lemma finite_suffixes: "finite {k. c \<le> k \<and> slug @ hyphen # decimal k \<in> set used}"
proof -
  have "inj (\<lambda>k. slug @ hyphen # decimal k)"
    by (rule injI) (simp add: decimal_inject)
  then have "finite ((\<lambda>k. slug @ hyphen # decimal k) -` set used)"
    by (intro finite_vimageI) simp_all
  then show ?thesis
    by (rule rev_finite_subset) auto
qed

text \<open>
  \<^verbatim>\<open>
  let counter = 1;
  let uniqueSlug = slug;
  while (usedIds.has(uniqueSlug)) {
      uniqueSlug = `${slug}-${counter}`;
      counter++;
  }
  \<close>
  The set \<^verbatim>\<open>usedIds\<close> is the list of the identifiers added so far; the loop only
  asks for membership. The loop is entered with \<open>counter = 1\<close> and \<open>uniqueSlug = slug\<close>.
\<close>

function uniqueSlug_loop :: "jsstring list \<Rightarrow> jsstring \<Rightarrow> nat \<Rightarrow> jsstring \<Rightarrow> jsstring" where
  "uniqueSlug_loop usedIds slug counter uniqueSlug =
     (if uniqueSlug \<in> set usedIds
      then uniqueSlug_loop usedIds slug (counter + 1) (slug @ hyphen # decimal counter)
      else uniqueSlug)"
  by pat_completeness auto
termination
proof (relation "measure (\<lambda>(usedIds, slug, counter, uniqueSlug).
    card {k. counter \<le> k \<and> slug @ hyphen # decimal k \<in> set usedIds}
    + (if uniqueSlug \<in> set usedIds then 1 else 0))", goal_cases)
  case 1
  show ?case by simp
next
  case (2 usedIds slug counter uniqueSlug)
  let ?A = "\<lambda>c. {k. c \<le> k \<and> slug @ hyphen # decimal k \<in> set usedIds}"
  show ?case
  proof (cases "slug @ hyphen # decimal counter \<in> set usedIds")
    case True
    then have "?A counter = insert counter (?A (counter + 1))"
      by (auto simp: le_Suc_eq)
    moreover have "counter \<notin> ?A (counter + 1)" by simp
    ultimately have "card (?A counter) = Suc (card (?A (counter + 1)))"
      using finite_suffixes[of "counter + 1" slug usedIds] by simp
    with 2 True show ?thesis by simp
  next
    case False
    then have "?A counter = ?A (counter + 1)"
      by (auto simp: le_Suc_eq) (metis Suc_leI le_neq_implies_less)
    with 2 False show ?thesis by simp
  qed
qed

declare uniqueSlug_loop.simps [simp del]


section \<open>The document and the page\<close>

text \<open>
  An element of the rendered document: its tag name in lower case (what
  \<^verbatim>\<open>tagName.toLowerCase()\<close> gives), its class list and its children.
\<close>

datatype node = Text jsstring | Element jsstring "jsstring list" "node list"

fun textContent :: "node \<Rightarrow> jsstring" where
  "textContent (Text s) = s"
| "textContent (Element t cs kids) = concat (map textContent kids)"

definition is_heading_tag :: "jsstring \<Rightarrow> bool" where
  "is_heading_tag t \<longleftrightarrow> t \<in> {js ''h1'', js ''h2'', js ''h3'', js ''h4''}"

text \<open>\<^verbatim>\<open>querySelectorAll('h1, h2, h3, h4')\<close>: the matching elements in document order.\<close>

fun select_headings :: "node \<Rightarrow> node list" where
  "select_headings (Text s) = []"
| "select_headings (Element t cs kids) =
     (if is_heading_tag t then [Element t cs kids] else []) @ concat (map select_headings kids)"

fun tagName :: "node \<Rightarrow> jsstring" where
  "tagName (Text s) = []"
| "tagName (Element t cs kids) = t"

text \<open>
  \<^verbatim>\<open>
  const loadingState = contentContainer.querySelector('.loading-state');
  if (loadingState) { loadingState.remove(); }
  \<close>
  The first element of class \<^verbatim>\<open>loading-state\<close> in document order is taken out;
  \<open>None\<close> when there is none.
\<close>

fun remove_loading :: "node list \<Rightarrow> node list option" where
  "remove_loading [] = None"
| "remove_loading (Text s # ns) = map_option ((#) (Text s)) (remove_loading ns)"
| "remove_loading (Element t cs kids # ns) =
     (if js ''loading-state'' \<in> set cs then Some ns
      else (case remove_loading kids of
              Some kids' \<Rightarrow> Some (Element t cs kids' # ns)
            | None \<Rightarrow> map_option ((#) (Element t cs kids)) (remove_loading ns)))"

definition drop_loading_state :: "node list \<Rightarrow> node list" where
  "drop_loading_state html = (case remove_loading html of Some ns \<Rightarrow> ns | None \<Rightarrow> html)"

text \<open>
  What the content container shows: the markup the page was served with, the error
  state written by \<^verbatim>\<open>showError\<close> (its message and the target of its link), or a
  rendered document.
\<close>

datatype view = Served | ErrorState jsstring jsstring | Document "node list"

fun view_nodes :: "view \<Rightarrow> node list" where
  "view_nodes (Document ns) = ns"
| "view_nodes v = []"

text \<open>An anchor of the table of contents; \<open>link_active\<close> is the class \<^verbatim>\<open>active\<close>.\<close>

record link =
  link_href :: jsstring
  link_text :: jsstring
  link_class :: jsstring
  link_active :: bool

datatype exn = SyntaxError | TypeError | Error jsstring

text \<open>
  The reads and requests of the program, in the order they happen: the read of the local
  store, the read of \<^verbatim>\<open>window.reportsData\<close>, the request for the index (with the time
  stamp of its query), the request for a document, and \<^verbatim>\<open>console.error\<close>.
\<close>

datatype io = ReadLocalStorage | ReadReportsData | FetchIndex nat
  | FetchText "jsstring option" | ConsoleError exn

text \<open>
  The page: the content container, the \<^verbatim>\<open>id\<close> of each of its headings in document
  order, the anchors of the table of contents, the title elements, and the log of
  reads and requests. The elements that the program looks up are taken to exist.
\<close>

record page =
  contentContainer :: view
  header_ids :: "jsstring list"
  tocContainer :: "link list"
  reportTitle :: jsstring
  reportDate :: jsstring
  document_title :: jsstring
  breadcrumbTitle :: jsstring
  io_log :: "io list"

text \<open>
  A report record of the index; \<open>rid\<close> is its field \<^verbatim>\<open>id\<close>. An optional field that
  the record lacks is \<open>None\<close>.
\<close>

record report =
  rid :: jsstring
  title :: jsstring
  created_at :: jsstring
  content :: "jsstring option"
  markdown_path :: "jsstring option"

text \<open>
  The item \<^verbatim>\<open>my_reports\<close> of the local store: absent (or empty), not JSON, or an array
  of records.
\<close>

datatype stored = NoItem | BadJson | Items "report list"

text \<open>
  The outcome of \<^verbatim>\<open>fetch\<close>: the promise rejects, or a response with its
  \<^verbatim>\<open>ok\<close> flag and its body.
\<close>

datatype 'a fetched = Rejected | Response bool 'a

text \<open>
  The options handed to \<^verbatim>\<open>marked.use\<close>. The renderer is a fresh
  \<^verbatim>\<open>new marked.Renderer()\<close>, none of whose methods the program replaces.
\<close>

datatype renderer = DefaultRenderer

record marked_options =
  gfm :: bool
  breaks :: bool
  renderer :: renderer

text \<open>
  The surroundings of one page view. \<open>marked\<close> is \<^verbatim>\<open>window.marked\<close>: \<open>None\<close> when
  the library has not loaded, otherwise \<^verbatim>\<open>marked.parse\<close> under the options in use,
  followed by the browser's reading of the text assigned to \<^verbatim>\<open>innerHTML\<close>. The body
  of the index response is \<open>None\<close> when it is not JSON.
\<close>

record env =
  url_id :: "jsstring option"
  my_reports :: stored
  reportsData :: "report list option"
  now :: nat
  index_response :: "report list option fetched"
  fetch_text :: "jsstring option \<Rightarrow> jsstring fetched"
  marked :: "(marked_options \<Rightarrow> jsstring \<Rightarrow> node list) option"
  toLowerCase :: "jsstring \<Rightarrow> jsstring"

text \<open>A string value that JavaScript takes for false: missing or empty.\<close>

definition falsy :: "jsstring option \<Rightarrow> bool" where
  "falsy v \<longleftrightarrow> v = None \<or> v = Some []"


section \<open>The table of contents\<close>

text \<open>
  \<^verbatim>\<open>
  function showError(message) {
      contentContainer.innerHTML = `<div class="error-state" ...>
              <p ...>... ${message}</p>
              <a href="cases.html" ...>Back to Case List</a>
          </div>`;
  }
  \<close>
  The new content has no heading.
\<close>

definition showError :: "page \<Rightarrow> jsstring \<Rightarrow> page" where
  "showError p message =
     p\<lparr>contentContainer := ErrorState message (js ''cases.html''), header_ids := []\<rparr>"

text \<open>
  The body of \<^verbatim>\<open>headers.forEach((header, index) => ...)\<close> in \<^verbatim>\<open>generateTOC\<close>, over the
  headers still to visit, the index of the first of them and the identifiers used so
  far. Each step gives the identifier written to \<^verbatim>\<open>header.id\<close> and the anchor
  appended to the list.
  \<^verbatim>\<open>
  let baseSlug = slugify(header.textContent);
  let slug = baseSlug || `heading-${index}`;
  let counter = 1;
  let uniqueSlug = slug;
  while (usedIds.has(uniqueSlug)) { uniqueSlug = `${slug}-${counter}`; counter++; }
  usedIds.add(uniqueSlug);
  header.id = uniqueSlug;
  a.href = `#${header.id}`;
  a.textContent = header.textContent;
  a.className = `toc-${header.tagName.toLowerCase()}`;
  \<close>
\<close>

fun toc_loop ::
  "(jsstring \<Rightarrow> jsstring) \<Rightarrow> node list \<Rightarrow> nat \<Rightarrow> jsstring list \<Rightarrow> (jsstring \<times> link) list" where
  "toc_loop lc [] index usedIds = []"
| "toc_loop lc (header # rest) index usedIds =
     (let baseSlug = slugify lc (textContent header);
          slug = (if baseSlug = [] then js ''heading-'' @ decimal index else baseSlug);
          uniqueSlug = uniqueSlug_loop usedIds slug 1 slug
      in (uniqueSlug,
          \<lparr>link_href = 35 # uniqueSlug, link_text = textContent header,
           link_class = js ''toc-'' @ tagName header, link_active = False\<rparr>)
         # toc_loop lc rest (index + 1) (uniqueSlug # usedIds))"

text \<open>
  \<^verbatim>\<open>generateTOC\<close>: the headings of the content container, a fresh \<^verbatim>\<open>usedIds\<close>, and
  the table of contents replaced by the new list.
\<close>

definition generateTOC :: "(jsstring \<Rightarrow> jsstring) \<Rightarrow> page \<Rightarrow> page" where
  "generateTOC lc p =
     (let headers = concat (map select_headings (view_nodes (contentContainer p)));
          entries = toc_loop lc headers 0 []
      in p\<lparr>header_ids := map fst entries, tocContainer := map snd entries\<rparr>)"

text \<open>
  \<^verbatim>\<open>
  marked.use({ gfm: true, breaks: true, renderer: renderer });
  \<close>
\<close>

definition marked_use :: marked_options where
  "marked_use = \<lparr>gfm = True, breaks = True, renderer = DefaultRenderer\<rparr>"

text \<open>
  \<^verbatim>\<open>
  const firstLink = tocContainer.querySelector('a');
  if (firstLink) { firstLink.classList.add('active'); }
  \<close>
\<close>

fun activate_first :: "link list \<Rightarrow> link list" where
  "activate_first [] = []"
| "activate_first (a # as) = a\<lparr>link_active := True\<rparr> # as"

text \<open>
  \<^verbatim>\<open>renderMarkdown\<close>. \<^verbatim>\<open>setupScrollSpy\<close> only registers the observer whose
  callbacks are the \<open>Intersect\<close> events below.
\<close>

definition renderMarkdown :: "env \<Rightarrow> page \<Rightarrow> jsstring \<Rightarrow> page" where
  "renderMarkdown e p markdownContent =
     (case marked e of
        None \<Rightarrow> showError p (js ''Markdown renderer failed to load'')
      | Some parse \<Rightarrow>
          (let html = parse marked_use markdownContent;
               p1 = generateTOC (toLowerCase e)
                      (p\<lparr>contentContainer := Document (drop_loading_state html)\<rparr>)
           in p1\<lparr>tocContainer := activate_first (tocContainer p1)\<rparr>))"

text \<open>
  \<^verbatim>\<open>
  function updateActiveLink(activeLink) {
      const links = tocContainer.querySelectorAll('a');
      links.forEach(link => link.classList.remove('active'));
      activeLink.classList.add('active');
      activeLink.scrollIntoView({ behavior: 'smooth', block: 'nearest' });
  }
  \<close>
  The anchor is given by its position in the table of contents; an anchor that is not
  in the table leaves it with no active entry.
\<close>

definition updateActiveLink :: "page \<Rightarrow> nat \<Rightarrow> page" where
  "updateActiveLink p k =
     (let links = map (\<lambda>link. link\<lparr>link_active := False\<rparr>) (tocContainer p)
      in p\<lparr>tocContainer :=
            (if k < length links then links[k := (links ! k)\<lparr>link_active := True\<rparr>]
             else links)\<rparr>)"

text \<open>\<^verbatim>\<open>tocContainer.querySelector(`a[href="#${id}"]`)\<close>: the first anchor with that target.\<close>

fun first_link :: "jsstring \<Rightarrow> link list \<Rightarrow> nat option" where
  "first_link h [] = None"
| "first_link h (a # as) =
     (if link_href a = h then Some 0 else map_option Suc (first_link h as))"

text \<open>
  The events after a render: a click on the anchor at a position, and a callback of
  the intersection observer with its entries (the position of the observed heading and
  \<^verbatim>\<open>isIntersecting\<close>).
\<close>

datatype event = Click nat | Intersect "(nat \<times> bool) list"

definition observe_entry :: "page \<Rightarrow> nat \<times> bool \<Rightarrow> page" where
  "observe_entry p entry =
     (if snd entry \<and> fst entry < length (header_ids p)
      then (case first_link (35 # header_ids p ! fst entry) (tocContainer p) of
              Some k \<Rightarrow> updateActiveLink p k
            | None \<Rightarrow> p)
      else p)"

fun handle_event :: "page \<Rightarrow> event \<Rightarrow> page" where
  "handle_event p (Click k) = (if k < length (tocContainer p) then updateActiveLink p k else p)"
| "handle_event p (Intersect entries) = foldl observe_entry p entries"

definition count_active :: "link list \<Rightarrow> nat" where
  "count_active links = length (filter link_active links)"


section \<open>initReport\<close>

definition log_io :: "io \<Rightarrow> page \<Rightarrow> page" where
  "log_io x p = p\<lparr>io_log := io_log p @ [x]\<rparr>"

text \<open>\<^verbatim>\<open>reports.find(r => r.id === reportId)\<close>\<close>

definition find_report :: "jsstring \<Rightarrow> report list \<Rightarrow> report option" where
  "find_report reportId reports = find (\<lambda>r. rid r = reportId) reports"

text \<open>\<^verbatim>\<open>JSON.parse(localStorage.getItem('my_reports') || '[]')\<close>\<close>

fun parse_my_reports :: "stored \<Rightarrow> exn + report list" where
  "parse_my_reports NoItem = Inr []"
| "parse_my_reports BadJson = Inl SyntaxError"
| "parse_my_reports (Items reports) = Inr reports"

text \<open>
  The first step of the \<^verbatim>\<open>try\<close> block, "Load Index": the record found, or the
  exception thrown, and the page with the reads and requests made.
  \<^verbatim>\<open>
  let reports = [];
  const localReports = JSON.parse(localStorage.getItem('my_reports') || '[]');
  if (localReports.length > 0) { reports = localReports; }
  let report = reports.find(r => r.id === reportId);
  if (!report) {
      if (window.reportsData) {
          report = window.reportsData.find(r => r.id === reportId);
      }
      if (!report) {
          const indexResponse = await fetch(`data/reports/index.json?v=${new Date().getTime()}`);
          if (indexResponse.ok) {
              const staticReports = await indexResponse.json();
              report = staticReports.find(r => r.id === reportId);
          }
      }
  }
  \<close>
\<close>

definition lookup_report :: "env \<Rightarrow> jsstring \<Rightarrow> page \<Rightarrow> (exn + report option) \<times> page" where
  "lookup_report e reportId p =
     (let p1 = log_io ReadLocalStorage p in
      case parse_my_reports (my_reports e) of
        Inl x \<Rightarrow> (Inl x, p1)
      | Inr localReports \<Rightarrow>
          (let reports = (if length localReports > 0 then localReports else []) in
           case find_report reportId reports of
             Some r \<Rightarrow> (Inr (Some r), p1)
           | None \<Rightarrow>
               (let p2 = log_io ReadReportsData p1;
                    report = (case reportsData e of
                                Some windowReports \<Rightarrow> find_report reportId windowReports
                              | None \<Rightarrow> None) in
                case report of
                  Some r \<Rightarrow> (Inr (Some r), p2)
                | None \<Rightarrow>
                    (let p3 = log_io (FetchIndex (now e)) p2 in
                     case index_response e of
                       Rejected \<Rightarrow> (Inl TypeError, p3)
                     | Response ok body \<Rightarrow>
                         (if ok
                          then (case body of
                                  None \<Rightarrow> (Inl SyntaxError, p3)
                                | Some staticReports \<Rightarrow>
                                    (Inr (find_report reportId staticReports), p3))
                          else (Inr None, p3))))))"

text \<open>
  "Update Metadata" and \<^verbatim>\<open>updateBreadcrumbTitle\<close> (which writes a non-empty title
  only).
\<close>

definition update_metadata :: "report \<Rightarrow> page \<Rightarrow> page" where
  "update_metadata r p =
     p\<lparr>reportTitle := title r,
       reportDate := js ''Generated on '' @ created_at r,
       document_title := title r @ js '' - Amz AI Agent'',
       breadcrumbTitle := (if title r = [] then breadcrumbTitle p else title r)\<rparr>"

text \<open>
  "Load Markdown Content":
  \<^verbatim>\<open>
  let markdownContent = report.content;
  if (!markdownContent) {
      const mdResponse = await fetch(report.markdown_path);
      if (!mdResponse.ok) throw new Error('Unable to load report content');
      markdownContent = await mdResponse.text();
  }
  \<close>
\<close>

definition load_content :: "env \<Rightarrow> report \<Rightarrow> page \<Rightarrow> (exn + jsstring) \<times> page" where
  "load_content e r p =
     (if falsy (content r)
      then (let p1 = log_io (FetchText (markdown_path r)) p in
            case fetch_text e (markdown_path r) of
              Rejected \<Rightarrow> (Inl TypeError, p1)
            | Response ok body \<Rightarrow>
                (if ok then (Inr body, p1)
                 else (Inl (Error (js ''Unable to load report content'')), p1)))
      else (Inr (the (content r)), p))"

text \<open>
  The \<^verbatim>\<open>try\<close> block: the exception it throws, if any, and the page at that point.
\<close>

definition initReport_try :: "env \<Rightarrow> jsstring \<Rightarrow> page \<Rightarrow> exn option \<times> page" where
  "initReport_try e reportId p =
     (case lookup_report e reportId p of
        (Inl x, p1) \<Rightarrow> (Some x, p1)
      | (Inr None, p1) \<Rightarrow> (None, showError p1 (js ''Report not found''))
      | (Inr (Some r), p1) \<Rightarrow>
          (case load_content e r (update_metadata r p1) of
             (Inl x, p2) \<Rightarrow> (Some x, p2)
           | (Inr markdownContent, p2) \<Rightarrow> (None, renderMarkdown e p2 markdownContent)))"

text \<open>The lines of the sample document of \<^verbatim>\<open>loadSampleMarkdown\<close>.\<close>

definition sample_lines :: "string list" where
  \<open>sample_lines =
   [''# 1. Market Overview & Competitor Background'',
    '''',
    ''## 1.1 Core Product Information'',
    ''**Anker Soundcore Liberty 4** is a flagship true wireless noise-canceling earbud from Anker, featuring Hi-Res Audio, Heart Rate Monitoring, and personalized noise cancellation.'',
    '''',
    ''| Dimension | Parameter |'',
    ''| :--- | :--- |'',
    ''| **ASIN** | B0B9M5T6X8 |'',
    ''| **Current Price** | $129.99 |'',
    ''| **Rating** | 4.3 (12,450 ratings) |'',
    ''| **Release Date** | 2022-09-28 |'',
    '''',
    ''> **AI Analysis Insight**: This product has the highest rating and review count in its price range, indicating high market acceptance.'',
    '''',
    ''## 1.2 Market Positioning Analysis'',
    ''Positioned in the mid-to-high-end market, direct competitors include **AirPods Pro 2**, **Sony WF-1000XM5**, and **Samsung Galaxy Buds2 Pro**.'',
    '''',
    ''- Higher Value for Money ($129 vs $249)'',
    ''- Unique Heart Rate Monitoring feature'',
    ''- Excellent App customization experience'',
    '''',
    ''# 2. Deep User Review Mining'',
    '''',
    ''## 2.1 Positive Sentiment Analysis'',
    ''Based on AI analysis of **5,000+** positive reviews, user satisfaction centers on:'',
    '''',
    ''### 2.1.1 Sound Quality Performance'',
    ''> "The sound quality is absolutely amazing, especially the LDAC support. Bass is punchy but not muddy."'',
    '''',
    ''Key Findings:'',
    ''- **Keywords**: Crisp, Punchy Bass, LDAC, EQ settings'',
    ''- **Share**: 45% of positive reviews mentioned sound quality'',
    '''',
    ''### 2.1.2 Comfort'',
    ''Users widely report comfort provided by CloudComfort ear tips, suitable for long wear.'',
    '''',
    ''> "I can wear these for 4+ hours without any discomfort."'',
    '''',
    ''# 3. Marketing Strategy Recommendations'',
    '''',
    ''## 3.1 Keyword Optimization (SEO)'',
    ''Recommend adding the following long-tail keywords to the Listing:'',
    '''',
    ''1. `wireless earbuds with heart rate monitor`'',
    ''2. `LDAC noise cancelling headphones`'',
    ''3. `best workout earbuds 2024`'',
    '''',
    ''## 3.2 Off-Site Promotion Opportunities'',
    ''- **YouTube Reviews**: Focus on fitness influencers'',
    ''- **TikTok Shorts**: Showcase cool interactive features'',
    '''',
    ''# 4. Improvement Recommendations Summary'',
    '''',
    ''1. **Firmware Upgrade** - Prioritize fixing multipoint connection instability'',
    ''2. **Packaging Optimization** - Enhance packaging texture'',
    ''3. **Noise Cancellation Algorithm** - Optimize for wind noise scenarios'',
    '''',
    ''> **Conclusion**: This is a highly competitive product with significant value-for-money advantages.'']\<close>

text \<open>
  The template literal opens with a line break, and a line break ends each of its lines.
\<close>

definition sampleMarkdown :: jsstring where
  "sampleMarkdown = 10 # concat (map (\<lambda>l. js l @ [10]) sample_lines)"

definition loadSampleMarkdown :: "env \<Rightarrow> page \<Rightarrow> page" where
  "loadSampleMarkdown e p = renderMarkdown e p sampleMarkdown"

text \<open>
  \<^verbatim>\<open>initReport\<close>: without an identifier the sample document; otherwise the
  \<^verbatim>\<open>try\<close> block, whose every exception the \<^verbatim>\<open>catch\<close> clause logs and turns into
  the error state.
  \<^verbatim>\<open>
  const reportId = urlParams.get('id');
  if (!reportId) { await loadSampleMarkdown(); return; }
  try { ... } catch (error) {
      console.error('Failed to load report:', error);
      showError('Bummer! Failed to load report. Please refresh and try again.');
  }
  \<close>
\<close>

definition initReport :: "env \<Rightarrow> page \<Rightarrow> page" where
  "initReport e p =
     (if falsy (url_id e) then loadSampleMarkdown e p
      else (case initReport_try e (the (url_id e)) p of
              (None, p1) \<Rightarrow> p1
            | (Some error, p1) \<Rightarrow>
                showError (log_io (ConsoleError error) p1)
                  (js ''Bummer! Failed to load report. Please refresh and try again.'')))"


section \<open>validateAsins\<close>

text \<open>
  \<^verbatim>\<open>/^B[A-Z0-9]{9}$/i\<close>: under the flag \<^verbatim>\<open>i\<close> the letters of either case match.
\<close>

definition is_alnum :: "nat \<Rightarrow> bool" where
  "is_alnum c \<longleftrightarrow> (48 \<le> c \<and> c \<le> 57) \<or> (65 \<le> c \<and> c \<le> 90) \<or> (97 \<le> c \<and> c \<le> 122)"

fun asinRegex_test :: "jsstring \<Rightarrow> bool" where
  "asinRegex_test [] = False"
| "asinRegex_test (b # rest) \<longleftrightarrow> (b = 66 \<or> b = 98) \<and> length rest = 9 \<and> list_all is_alnum rest"

text \<open>
  \<^verbatim>\<open>.split(/[\n,\s]+/)\<close>: the pieces between the maximal runs of separators, the
  empty pieces before a leading and after a trailing run included.
\<close>

definition is_separator :: "nat \<Rightarrow> bool" where
  "is_separator c \<longleftrightarrow> c = 10 \<or> c = 44 \<or> is_space c"

function split_separators :: "jsstring \<Rightarrow> jsstring list" where
  "split_separators s =
     (if dropWhile (\<lambda>c. \<not> is_separator c) s = [] then [s]
      else takeWhile (\<lambda>c. \<not> is_separator c) s
           # split_separators (dropWhile is_separator (dropWhile (\<lambda>c. \<not> is_separator c) s)))"
  by pat_completeness auto
termination
proof (relation "measure length", goal_cases)
  case 1
  show ?case by simp
next
  case (2 s)
  then obtain x xs where rest: "dropWhile (\<lambda>c. \<not> is_separator c) s = x # xs"
    by (cases "dropWhile (\<lambda>c. \<not> is_separator c) s") auto
  then have "is_separator x"
    using hd_dropWhile[of "\<lambda>c. \<not> is_separator c" s] by auto
  then have "length (dropWhile is_separator (x # xs)) \<le> length xs"
    by (simp add: length_dropWhile_le)
  moreover have "length (x # xs) \<le> length s"
    using length_dropWhile_le[of "\<lambda>c. \<not> is_separator c" s] rest by simp
  ultimately show ?case using rest by simp
qed

declare split_separators.simps [simp del]

text \<open>
  \<^verbatim>\<open>validateAsins\<close> over the values of the two fields; what it writes to the form
  (validity messages, border colours, the shake animation) is left out.
  \<^verbatim>\<open>
  const mainAsinValue = mainAsin.value.trim().toUpperCase();
  if (!mainAsinValue) { isMainValid = false; ... }
  else if (!asinRegex.test(mainAsinValue)) { isMainValid = false; ... }
  const compAsinValue = compAsin.value.trim();
  if (!compAsinValue) { isCompValid = false; ... }
  else {
      const compAsins = compAsinValue.split(/[\n,\s]+/).map(s => s.trim().toUpperCase()).filter(s => s);
      const invalidAsins = compAsins.filter(asin => !asinRegex.test(asin));
      if (invalidAsins.length > 0) { isCompValid = false; ... }
  }
  if (!isMainValid) { mainAsin.reportValidity(); return false; }
  if (!isCompValid) { compAsin.reportValidity(); return false; }
  return true;
  \<close>
\<close>

definition validateAsins :: "(jsstring \<Rightarrow> jsstring) \<Rightarrow> jsstring \<Rightarrow> jsstring \<Rightarrow> bool" where
  "validateAsins toUpperCase mainValue compValue =
     (let mainAsinValue = toUpperCase (trim mainValue);
          isMainValid = (if mainAsinValue = [] then False
                         else if asinRegex_test mainAsinValue then True else False);
          compAsinValue = trim compValue;
          isCompValid =
            (if compAsinValue = [] then False
             else (let compAsins = filter (\<lambda>s. s \<noteq> [])
                         (map (\<lambda>s. toUpperCase (trim s)) (split_separators compAsinValue));
                       invalidAsins = filter (\<lambda>asin. \<not> asinRegex_test asin) compAsins
                   in if length invalidAsins > 0 then False else True))
      in if isMainValid then (if isCompValid then True else False) else False)"

text \<open>
  The validation as the claim words it: the main field, trimmed and in upper case,
  matches; the competitor field, split at the runs of separators with the empty tokens
  dropped, gives at least one token, and every token, trimmed and in upper case, matches.
\<close>

definition spec_validateAsins :: "(jsstring \<Rightarrow> jsstring) \<Rightarrow> jsstring \<Rightarrow> jsstring \<Rightarrow> bool" where
  "spec_validateAsins toUpperCase mainValue compValue =
     (asinRegex_test (toUpperCase (trim mainValue)) \<and>
      (let tokens = filter (\<lambda>s. s \<noteq> []) (split_separators compValue)
       in tokens \<noteq> [] \<and> list_all (\<lambda>t. asinRegex_test (toUpperCase (trim t))) tokens))"


section \<open>Notions for the statements, and the scenarios\<close>

text \<open>The steps of \<open>slugify\<close> after the white space has been trimmed.\<close>

definition slug_tail :: "jsstring \<Rightarrow> jsstring" where
  "slug_tail s = trim_hyphens (collapse_hyphens (filter keep_char (replace_space_runs s)))"

text \<open>
  The identifier a heading has before the uniqueness loop:
  \<^verbatim>\<open>slugify(header.textContent) || `heading-${index}`\<close>.
\<close>

definition heading_slug :: "(jsstring \<Rightarrow> jsstring) \<Rightarrow> node \<Rightarrow> nat \<Rightarrow> jsstring" where
  "heading_slug lc header index =
     (if slugify lc (textContent header) = [] then js ''heading-'' @ decimal index
      else slugify lc (textContent header))"

text \<open>
  The candidates of the uniqueness loop in the order it tries them: the identifier
  itself, then the identifier with the suffixes \<^verbatim>\<open>-1\<close>, \<^verbatim>\<open>-2\<close>, and so on.
\<close>

definition suffix_rule :: "jsstring \<Rightarrow> nat \<Rightarrow> jsstring" where
  "suffix_rule slug k = (if k = 0 then slug else slug @ hyphen # decimal k)"

text \<open>
  The tokens of the competitor field: the non-empty pieces between the runs of
  separators.
\<close>

definition tokens :: "jsstring \<Rightarrow> jsstring list" where
  "tokens s = filter (\<lambda>t. t \<noteq> []) (split_separators s)"

text \<open>The headings of the page in document order, as \<open>generateTOC\<close> visits them.\<close>

definition page_headers :: "page \<Rightarrow> node list" where
  "page_headers p = concat (map select_headings (view_nodes (contentContainer p)))"

text \<open>
  The identifier the specification gives the heading at position \<open>k\<close> before
  uniqueness: its slug, or \<^verbatim>\<open>heading-\<close> and the position when the slug is empty.
\<close>

definition fallback_slug :: "(jsstring \<Rightarrow> jsstring) \<Rightarrow> node \<Rightarrow> nat \<Rightarrow> jsstring" where
  "fallback_slug lc header k =
     (if spec_slug lc (textContent header) = [] then js ''heading-'' @ decimal k
      else spec_slug lc (textContent header))"



text \<open>
  A stand-in for the renderer in the scenarios: it renders the lines that open with one
  to four \<^verbatim>\<open>#\<close> and a space as headings of that level, and nothing else.
\<close>

fun split_lines :: "jsstring \<Rightarrow> jsstring list" where
  "split_lines [] = [[]]"
| "split_lines (c # cs) =
     (if c = 10 then [] # split_lines cs
      else (case split_lines cs of l # ls \<Rightarrow> (c # l) # ls | [] \<Rightarrow> [[c]]))"

definition atx_heading :: "jsstring \<Rightarrow> node option" where
  "atx_heading line =
     (let n = length (takeWhile (\<lambda>c. c = 35) line)
      in if 1 \<le> n \<and> n \<le> 4 \<and> take 1 (drop n line) = [32]
         then Some (Element (104 # decimal n) [] [Text (drop (n + 1) line)])
         else None)"

definition headings_renderer :: "marked_options \<Rightarrow> jsstring \<Rightarrow> node list" where
  "headings_renderer options markdownContent =
     List.map_filter atx_heading (split_lines markdownContent)"

definition blank_page :: page where
  "blank_page = \<lparr>contentContainer = Served, header_ids = [], tocContainer = [],
     reportTitle = [], reportDate = [], document_title = [], breadcrumbTitle = [], io_log = []\<rparr>"

definition report_abc :: report where
  "report_abc = \<lparr>rid = js ''abc'', title = js ''Earbuds'', created_at = js ''2024-05-01'',
     content = Some (js ''# Market Overview''), markdown_path = None\<rparr>"

text \<open>
  Surroundings with the stand-in renderer, no preloaded collection and an index request
  answered 404; the identifier of the query and the local store vary.
\<close>

definition scenario_env :: "jsstring option \<Rightarrow> stored \<Rightarrow> env" where
  "scenario_env i local = \<lparr>url_id = i, my_reports = local, reportsData = None, now = 0,
     index_response = Response False None, fetch_text = (\<lambda>u. Response False []),
     marked = Some headings_renderer, toLowerCase = ascii_toLowerCase\<rparr>"


definition market_heading :: node where
  "market_heading = Element (js ''h2'') [] [Text (js ''Market Overview'')]"

text \<open>
  A page of three headings, the second inside a paragraph; the texts of the second and
  the third leave an empty slug.
\<close>

definition fallback_page :: page where
  "fallback_page = blank_page\<lparr>contentContainer := Document
     [Element (js ''h1'') [] [Text (js ''Intro'')],
      Element (js ''p'') [] [Text (js ''text''), Element (js ''h3'') [] [Text (js ''!?'')]],
      Element (js ''h2'') [] [Text (js ''***'')]]\<rparr>"

text \<open>A page with a table of two entries, the first of them active.\<close>

definition two_links_page :: page where
  "two_links_page = blank_page\<lparr>header_ids := [js ''a'', js ''b''], tocContainer :=
     [\<lparr>link_href = js ''#a'', link_text = js ''A'', link_class = js ''toc-h1'', link_active = True\<rparr>,
      \<lparr>link_href = js ''#b'', link_text = js ''B'', link_class = js ''toc-h1'', link_active = False\<rparr>]\<rparr>"



section \<open>Properties of slugify\<close>

lemma drop_trailing_Nil [simp]: "drop_trailing P [] = []"
  by (simp add: drop_trailing_def)

lemma drop_trailing_Cons:
  "drop_trailing P (x # xs) =
     (if P x \<and> drop_trailing P xs = [] then [] else x # drop_trailing P xs)"
  by (auto simp: drop_trailing_def dropWhile_append)

lemma drop_trailing_snoc:
  "drop_trailing P (xs @ [x]) = (if P x then drop_trailing P xs else xs @ [x])"
  by (simp add: drop_trailing_def)

text \<open>A string is what \<open>drop_trailing\<close> leaves of it, followed by the run it dropped.\<close>

lemma drop_trailing_decomp:
  "\<exists>ws. xs = drop_trailing P xs @ ws \<and> (\<forall>w \<in> set ws. P w) \<and>
     (drop_trailing P xs = [] \<or> \<not> P (last (drop_trailing P xs)))"
proof (induction xs rule: rev_induct)
  case Nil
  show ?case by simp
next
  case (snoc x xs)
  then obtain ws where ws: "xs = drop_trailing P xs @ ws" "\<forall>w \<in> set ws. P w"
    "drop_trailing P xs = [] \<or> \<not> P (last (drop_trailing P xs))" by blast
  show ?case
  proof (cases "P x")
    case True
    have "xs @ [x] = drop_trailing P xs @ (ws @ [x])" using ws(1) by simp
    with True ws show ?thesis
      by (auto simp: drop_trailing_snoc intro!: exI[of _ "ws @ [x]"])
  next
    case False
    then show ?thesis by (auto simp: drop_trailing_snoc)
  qed
qed

lemma dropWhile_all: "\<forall>x \<in> set xs. P x \<Longrightarrow> dropWhile P xs = []"
  by simp

lemma dropWhile_collapse:
  "dropWhile is_hyphen (collapse_hyphens y) = collapse_hyphens (dropWhile is_hyphen y)"
  by (induction y rule: collapse_hyphens.induct) auto

lemma collapse_snoc_hyphen:
  "drop_trailing is_hyphen (collapse_hyphens (y @ [hyphen]))
     = drop_trailing is_hyphen (collapse_hyphens y)"
proof (induction y rule: collapse_hyphens.induct)
  case (1 c d cs)
  show ?case
  proof (cases "c = hyphen \<and> d = hyphen")
    case True
    show ?thesis
    proof (cases "\<forall>x \<in> set cs. is_hyphen x")
      case all: True
      with True show ?thesis by (simp add: dropWhile_append dropWhile_all)
    next
      case False
      then have "dropWhile is_hyphen (cs @ [hyphen]) = dropWhile is_hyphen cs @ [hyphen]"
        by (auto simp: dropWhile_append)
      with True 1(1) show ?thesis by (simp add: drop_trailing_Cons)
    qed
  next
    case False
    with 1(2) show ?thesis by (auto simp: drop_trailing_Cons)
  qed
next
  case (2 c)
  show ?case by (simp add: drop_trailing_Cons)
next
  case 3
  show ?case by (simp add: drop_trailing_Cons)
qed

lemma trim_hyphens_collapse_Cons:
  "trim_hyphens (collapse_hyphens (hyphen # y)) = trim_hyphens (collapse_hyphens y)"
  by (simp add: trim_hyphens_def dropWhile_collapse)

lemma trim_hyphens_collapse_snoc:
  "trim_hyphens (collapse_hyphens (y @ [hyphen])) = trim_hyphens (collapse_hyphens y)"
proof (cases "\<forall>x \<in> set y. is_hyphen x")
  case True
  then show ?thesis
    by (simp add: trim_hyphens_def dropWhile_collapse dropWhile_append dropWhile_all)
next
  case False
  then have "dropWhile is_hyphen (y @ [hyphen]) = dropWhile is_hyphen y @ [hyphen]"
    by (auto simp: dropWhile_append)
  then show ?thesis by (simp add: trim_hyphens_def dropWhile_collapse collapse_snoc_hyphen)
qed

text \<open>
  Leading white space becomes a leading hyphen, which the last step removes: dropping
  it first changes nothing.
\<close>

lemma slug_tail_dropWhile: "slug_tail (dropWhile is_space s) = slug_tail s"
proof (cases s)
  case Nil
  then show ?thesis by simp
next
  case (Cons c cs)
  show ?thesis
  proof (cases "is_space c")
    case True
    with Cons show ?thesis
      by (simp add: slug_tail_def keep_char_def trim_hyphens_collapse_Cons)
  next
    case False
    with Cons show ?thesis by simp
  qed
qed

lemma replace_space_runs_trailing:
  "ws \<noteq> [] \<Longrightarrow> \<forall>w \<in> set ws. is_space w \<Longrightarrow> t = [] \<or> \<not> is_space (last t) \<Longrightarrow>
   replace_space_runs (t @ ws) = replace_space_runs t @ [hyphen]"
proof (induction t rule: replace_space_runs.induct)
  case 1
  then obtain w ws' where "ws = w # ws'" by (cases ws) auto
  with 1 show ?case by (simp add: dropWhile_all)
next
  case (2 c cs)
  show ?case
  proof (cases "is_space c")
    case True
    with 2(5) have ne: "cs \<noteq> []" and last: "\<not> is_space (last cs)" by (auto split: if_splits)
    then have nall: "\<not> (\<forall>x \<in> set cs. is_space x)" using last_in_set by blast
    then have dw: "dropWhile is_space (cs @ ws) = dropWhile is_space cs @ ws"
      by (auto simp: dropWhile_append)
    have dne: "dropWhile is_space cs \<noteq> []" using nall by auto
    have "last (dropWhile is_space cs) = last cs"
      using dne by (metis last_appendR takeWhile_dropWhile_id)
    with last dne have "dropWhile is_space cs = [] \<or> \<not> is_space (last (dropWhile is_space cs))"
      by simp
    from 2(1)[OF True 2(3) 2(4) this] True dw show ?thesis by simp
  next
    case False
    with 2(5) have "cs = [] \<or> \<not> is_space (last cs)" by (auto split: if_splits)
    from 2(2)[OF False 2(3) 2(4) this] False show ?thesis by simp
  qed
qed

text \<open>Trailing white space becomes a trailing hyphen, which the last step removes.\<close>

lemma slug_tail_drop_trailing: "slug_tail (drop_trailing is_space s) = slug_tail s"
proof -
  obtain ws where ws: "s = drop_trailing is_space s @ ws" "\<forall>w \<in> set ws. is_space w"
    "drop_trailing is_space s = [] \<or> \<not> is_space (last (drop_trailing is_space s))"
    using drop_trailing_decomp[of s is_space] by blast
  show ?thesis
  proof (cases "ws = []")
    case True
    with ws(1) show ?thesis by simp
  next
    case False
    have "replace_space_runs s = replace_space_runs (drop_trailing is_space s @ ws)"
      using ws(1) by simp
    also have "\<dots> = replace_space_runs (drop_trailing is_space s) @ [hyphen]"
      using replace_space_runs_trailing[OF False ws(2) ws(3)] .
    finally show ?thesis
      by (simp add: slug_tail_def keep_char_def trim_hyphens_collapse_snoc)
  qed
qed

lemma slug_tail_trim: "slug_tail (trim s) = slug_tail s"
  by (simp add: trim_def slug_tail_drop_trailing slug_tail_dropWhile)

text \<open>Each step of the specification computes what the step of \<open>slugify\<close> computes.\<close>

lemma spec_hyphenate_space_eq:
  "spec_hyphenate_space True s = replace_space_runs (dropWhile is_space s)
   \<and> spec_hyphenate_space False s = replace_space_runs s"
  by (induction s) simp_all

lemma spec_allowed_eq: "spec_allowed = keep_char"
  by (rule ext) (auto simp: spec_allowed_def keep_char_def is_word_def)

lemma spec_collapse_repeated_hyphen:
  "spec_collapse_repeated (hyphen # cs) = hyphen # spec_collapse_repeated (dropWhile is_hyphen cs)"
  by (induction cs) simp_all

lemma spec_collapse_repeated_eq: "spec_collapse_repeated s = collapse_hyphens s"
proof (induction s rule: collapse_hyphens.induct)
  case (1 c d cs)
  show ?case
  proof (cases "c = hyphen \<and> d = hyphen")
    case True
    then have "spec_collapse_repeated (c # d # cs) = spec_collapse_repeated (hyphen # cs)" by simp
    also have "\<dots> = hyphen # spec_collapse_repeated (dropWhile is_hyphen cs)"
      by (rule spec_collapse_repeated_hyphen)
    finally show ?thesis using True 1(1) by simp
  next
    case False
    with 1(2) show ?thesis by auto
  qed
qed simp_all

lemma spec_drop_leading_hyphens_eq: "spec_drop_leading_hyphens s = dropWhile is_hyphen s"
  by (induction s) simp_all

lemma spec_drop_trailing_hyphens_eq: "spec_drop_trailing_hyphens s = drop_trailing is_hyphen s"
  by (induction s) (simp_all add: drop_trailing_Cons)

lemma spec_slug_eq: "spec_slug lc text = slug_tail (lc text)"
  by (simp add: spec_slug_def slug_tail_def trim_hyphens_def spec_hyphenate_space_eq
      spec_allowed_eq spec_collapse_repeated_eq spec_drop_leading_hyphens_eq
      spec_drop_trailing_hyphens_eq)

lemma slugify_spec_slug: "slugify lc text = spec_slug lc text"
  using slug_tail_trim[of "lc text"] by (simp add: spec_slug_eq slugify_def slug_tail_def)


section \<open>Properties of the generated identifiers\<close>

lemma suffix_rule_inject: "suffix_rule slug j = suffix_rule slug k \<Longrightarrow> j = k"
  by (auto simp: suffix_rule_def decimal_inject split: if_splits)

lemma uniqueSlug_loop_fresh: "uniqueSlug_loop used slug c u \<notin> set used"
  by (induction used slug c u rule: uniqueSlug_loop.induct)
     (subst uniqueSlug_loop.simps, simp)

lemma uniqueSlug_loop_not_Nil: "u \<noteq> [] \<Longrightarrow> uniqueSlug_loop used slug c u \<noteq> []"
  by (induction used slug c u rule: uniqueSlug_loop.induct)
     (subst uniqueSlug_loop.simps, simp)

text \<open>
  From the candidate with suffix \<open>c\<close> the loop runs to the first candidate that is not
  used.
\<close>

lemma uniqueSlug_loop_run:
  "1 \<le> c \<Longrightarrow> c \<le> m \<Longrightarrow> \<forall>k. c \<le> k \<and> k < m \<longrightarrow> suffix_rule slug k \<in> set used \<Longrightarrow>
   suffix_rule slug m \<notin> set used \<Longrightarrow>
   uniqueSlug_loop used slug (c + 1) (suffix_rule slug c) = suffix_rule slug m"
proof (induction "m - c" arbitrary: c)
  case 0
  then have "c = m" by simp
  with 0 show ?case by (subst uniqueSlug_loop.simps) simp
next
  case (Suc d)
  then have lt: "c < m" by simp
  with Suc.prems have used: "suffix_rule slug c \<in> set used" by simp
  have "uniqueSlug_loop used slug (c + 1) (suffix_rule slug c)
      = uniqueSlug_loop used slug (c + 1 + 1) (suffix_rule slug (c + 1))"
    using used by (subst uniqueSlug_loop.simps) (simp add: suffix_rule_def)
  also have "\<dots> = suffix_rule slug m"
    using Suc.hyps(1)[of "c + 1"] Suc.hyps(2) Suc.prems lt by simp
  finally show ?case .
qed

lemma uniqueSlug_loop_rule:
  assumes "\<forall>k < m. suffix_rule slug k \<in> set used" "suffix_rule slug m \<notin> set used"
  shows "uniqueSlug_loop used slug 1 slug = suffix_rule slug m"
proof (cases "m = 0")
  case True
  with assms show ?thesis by (subst uniqueSlug_loop.simps) (simp add: suffix_rule_def)
next
  case False
  with assms(1) have "slug \<in> set used" by (auto simp: suffix_rule_def)
  then have "uniqueSlug_loop used slug 1 slug
      = uniqueSlug_loop used slug (1 + 1) (suffix_rule slug 1)"
    by (subst uniqueSlug_loop.simps) (simp add: suffix_rule_def)
  also have "\<dots> = suffix_rule slug m"
    using uniqueSlug_loop_run[of 1 m slug used] assms False by simp
  finally show ?thesis .
qed

text \<open>The loop returns the first candidate that is not used.\<close>

lemma uniqueSlug_loop_least:
  "\<exists>m. uniqueSlug_loop used slug 1 slug = suffix_rule slug m \<and>
       suffix_rule slug m \<notin> set used \<and> (\<forall>k < m. suffix_rule slug k \<in> set used)"
proof -
  have "inj (suffix_rule slug)" by (rule injI) (rule suffix_rule_inject)
  then have "finite (suffix_rule slug -` set used)" by (intro finite_vimageI) simp_all
  then have "\<exists>k. suffix_rule slug k \<notin> set used"
    by (metis ex_new_if_finite infinite_UNIV_nat vimageI)
  then obtain m where m: "suffix_rule slug m \<notin> set used"
      "\<forall>k < m. suffix_rule slug k \<in> set used"
    using exists_least_iff[of "\<lambda>k. suffix_rule slug k \<notin> set used"] by auto
  with uniqueSlug_loop_rule[of m slug used] show ?thesis by blast
qed

lemma heading_slug_not_Nil: "heading_slug lc h i \<noteq> []"
  by (simp add: heading_slug_def js_def)

lemma toc_loop_Cons:
  "toc_loop lc (h # rest) i used =
     (uniqueSlug_loop used (heading_slug lc h i) 1 (heading_slug lc h i),
      \<lparr>link_href = 35 # uniqueSlug_loop used (heading_slug lc h i) 1 (heading_slug lc h i),
       link_text = textContent h, link_class = js ''toc-'' @ tagName h, link_active = False\<rparr>)
     # toc_loop lc rest (i + 1)
         (uniqueSlug_loop used (heading_slug lc h i) 1 (heading_slug lc h i) # used)"
  by (simp add: heading_slug_def Let_def)

lemma toc_loop_length: "length (toc_loop lc hs i used) = length hs"
  by (induction hs arbitrary: i used) (simp_all add: Let_def)

lemma toc_loop_fresh: "set (map fst (toc_loop lc hs i used)) \<inter> set used = {}"
proof (induction hs arbitrary: i used)
  case Nil
  show ?case by simp
next
  case (Cons h hs)
  from Cons[of "i + 1" "uniqueSlug_loop used (heading_slug lc h i) 1 (heading_slug lc h i) # used"]
    uniqueSlug_loop_fresh[of used "heading_slug lc h i" 1 "heading_slug lc h i"]
  show ?case by (auto simp: toc_loop_Cons simp del: toc_loop.simps)
qed

lemma toc_loop_distinct: "distinct (map fst (toc_loop lc hs i used))"
proof (induction hs arbitrary: i used)
  case Nil
  show ?case by simp
next
  case (Cons h hs)
  from Cons[of "i + 1" "uniqueSlug_loop used (heading_slug lc h i) 1 (heading_slug lc h i) # used"]
    toc_loop_fresh[of lc hs "i + 1"
      "uniqueSlug_loop used (heading_slug lc h i) 1 (heading_slug lc h i) # used"]
  show ?case by (auto simp: toc_loop_Cons simp del: toc_loop.simps)
qed

lemma toc_loop_not_Nil: "u \<in> set (map fst (toc_loop lc hs i used)) \<Longrightarrow> u \<noteq> []"
proof (induction hs arbitrary: i used)
  case Nil
  then show ?case by simp
next
  case (Cons h hs)
  then show ?case
    using uniqueSlug_loop_not_Nil[of "heading_slug lc h i" used "heading_slug lc h i" 1,
        OF heading_slug_not_Nil]
    by (auto simp: toc_loop_Cons simp del: toc_loop.simps)
qed

lemma toc_loop_href:
  "map (link_href \<circ> snd) (toc_loop lc hs i used) = map ((#) 35 \<circ> fst) (toc_loop lc hs i used)"
  by (induction hs arbitrary: i used) (simp_all add: Let_def)

text \<open>
  Headings of one text whose slug is not empty: after \<open>j\<close> of them the next \<open>n\<close> get the
  candidates \<open>j\<close> to \<open>j + n - 1\<close>.
\<close>

lemma toc_loop_replicate:
  assumes "slugify lc (textContent h) = s" "s \<noteq> []"
  shows "map fst (toc_loop lc (replicate n h) i (rev (map (suffix_rule s) [0..<j])))
         = map (suffix_rule s) [j..<j + n]"
proof (induction n arbitrary: i j)
  case 0
  show ?case by simp
next
  case (Suc n)
  have hs: "heading_slug lc h i = s" using assms by (simp add: heading_slug_def)
  have "uniqueSlug_loop (rev (map (suffix_rule s) [0..<j])) s 1 s = suffix_rule s j"
    by (rule uniqueSlug_loop_rule) (auto dest: suffix_rule_inject)
  then show ?case
    using Suc[of "i + 1" "Suc j"] hs
    by (simp add: toc_loop_Cons upt_rec[of j] del: toc_loop.simps replicate.simps
        add: replicate_Suc)
qed

lemma tocContainer_generateTOC:
  "tocContainer (generateTOC lc p)
     = map snd (toc_loop lc (concat (map select_headings (view_nodes (contentContainer p)))) 0 [])"
  by (simp add: generateTOC_def Let_def)

lemma header_ids_generateTOC:
  "header_ids (generateTOC lc p)
     = map fst (toc_loop lc (concat (map select_headings (view_nodes (contentContainer p)))) 0 [])"
  by (simp add: generateTOC_def Let_def)

lemmas js_eval = js_def slugify_def ascii_toLowerCase_def trim_def drop_trailing_def is_space_def
  keep_char_def is_word_def trim_hyphens_def

text \<open>
  Claim C2. The identifiers generated in one render are pairwise distinct and none is
  empty; each anchor points to its identifier. The identifier of a heading is the first
  of the candidates (its slug, then the slug with \<^verbatim>\<open>-1\<close>, \<^verbatim>\<open>-2\<close>, and so on) that
  is not yet used, every earlier candidate being used. So \<open>n\<close> headings of one text
  with a non-empty slug get the slug and the slug with the suffixes \<^verbatim>\<open>-1\<close> to
  \<open>n - 1\<close>.
\<close>

theorem generated_ids_unique:
  "distinct (header_ids (generateTOC lc p))
   \<and> (\<forall>u \<in> set (header_ids (generateTOC lc p)). u \<noteq> [])
   \<and> map link_href (tocContainer (generateTOC lc p)) = map ((#) 35) (header_ids (generateTOC lc p))
   \<and> (\<exists>m. fst (hd (toc_loop lc (header # rest) index usedIds))
              = suffix_rule (heading_slug lc header index) m
          \<and> suffix_rule (heading_slug lc header index) m \<notin> set usedIds
          \<and> (\<forall>k < m. suffix_rule (heading_slug lc header index) k \<in> set usedIds))
   \<and> (slugify lc (textContent header) \<noteq> [] \<longrightarrow>
        map fst (toc_loop lc (replicate n header) 0 [])
          = map (suffix_rule (slugify lc (textContent header))) [0..<n])"
proof -
  have a: "distinct (header_ids (generateTOC lc p))"
    by (simp add: header_ids_generateTOC toc_loop_distinct)
  have b: "\<forall>u \<in> set (header_ids (generateTOC lc p)). u \<noteq> []"
    using toc_loop_not_Nil by (auto simp: header_ids_generateTOC simp del: set_map)
  have c: "map link_href (tocContainer (generateTOC lc p))
      = map ((#) 35) (header_ids (generateTOC lc p))"
    using toc_loop_href by (simp add: header_ids_generateTOC tocContainer_generateTOC)
  have d: "\<exists>m. fst (hd (toc_loop lc (header # rest) index usedIds))
              = suffix_rule (heading_slug lc header index) m
          \<and> suffix_rule (heading_slug lc header index) m \<notin> set usedIds
          \<and> (\<forall>k < m. suffix_rule (heading_slug lc header index) k \<in> set usedIds)"
    using uniqueSlug_loop_least[of usedIds "heading_slug lc header index"]
    by (simp add: toc_loop_Cons del: toc_loop.simps)
  have e: "slugify lc (textContent header) \<noteq> [] \<longrightarrow>
        map fst (toc_loop lc (replicate n header) 0 [])
          = map (suffix_rule (slugify lc (textContent header))) [0..<n]"
    using toc_loop_replicate[of lc header "slugify lc (textContent header)" n 0 0] by simp
  from a b c d e show ?thesis by blast
qed

text \<open>
  Claim C2 at the heading text "Market Overview" appearing twice: the identifiers are
  \<^verbatim>\<open>market-overview\<close> and \<^verbatim>\<open>market-overview-1\<close>.
\<close>

theorem generated_ids_unique_witness:
  "map fst (toc_loop ascii_toLowerCase [market_heading, market_heading] 0 [])
     = [js ''market-overview'', js ''market-overview-1'']
   \<and> header_ids (generateTOC ascii_toLowerCase
         (blank_page\<lparr>contentContainer := Document [market_heading, market_heading]\<rparr>))
     = [js ''market-overview'', js ''market-overview-1'']"
proof -
  have s: "slugify ascii_toLowerCase (textContent market_heading) = js ''market-overview''"
    by (simp add: market_heading_def js_eval)
  have ne: "js ''market-overview'' \<noteq> []" by (simp add: js_def)
  have r: "replicate 2 market_heading = [market_heading, market_heading]"
    by (simp add: numeral_2_eq_2)
  have u: "[0..<2] = [0, Suc 0]" by (simp add: numeral_2_eq_2)
  have h: "select_headings market_heading = [market_heading]"
    by (simp add: market_heading_def is_heading_tag_def js_def)
  have t: "map fst (toc_loop ascii_toLowerCase [market_heading, market_heading] 0 [])
     = [js ''market-overview'', js ''market-overview-1'']"
    using generated_ids_unique[of ascii_toLowerCase blank_page market_heading "[]" 0 "[]" 2] s ne
    by (simp add: r u suffix_rule_def decimal.simps js_def del: toc_loop.simps)
  then show ?thesis by (simp add: header_ids_generateTOC h del: toc_loop.simps)
qed

text \<open>
  The identifier of the heading at position \<open>k\<close>: the loop run on the identifiers of the
  headings before it.
\<close>

lemma toc_loop_nth:
  "k < length hs \<Longrightarrow>
   fst (toc_loop lc hs i used ! k)
     = uniqueSlug_loop (rev (map fst (take k (toc_loop lc hs i used))) @ used)
         (heading_slug lc (hs ! k) (i + k)) 1 (heading_slug lc (hs ! k) (i + k))"
proof (induction hs arbitrary: i used k)
  case Nil
  then show ?case by simp
next
  case (Cons h hs)
  show ?case
  proof (cases k)
    case 0
    then show ?thesis by (simp add: toc_loop_Cons del: toc_loop.simps)
  next
    case (Suc j)
    with Cons.prems have "j < length hs" by simp
    from Cons.IH[OF this, of "i + 1"
        "uniqueSlug_loop used (heading_slug lc h i) 1 (heading_slug lc h i) # used"]
    show ?thesis using Suc by (simp add: toc_loop_Cons del: toc_loop.simps)
  qed
qed

lemma uniqueSlug_loop_unused: "slug \<notin> set used \<Longrightarrow> uniqueSlug_loop used slug 1 slug = slug"
  by (subst uniqueSlug_loop.simps) simp

text \<open>
  Claim C3. For every heading text, \<open>slugify\<close> computes the slug of the specification:
  lower-casing, white space runs to single hyphens, stripping of the characters that
  are neither word characters nor hyphens nor in the range U+4E00 to U+9FA5, collapsing
  of repeated hyphens, trimming of leading and trailing hyphens (the trimming of white
  space that \<open>slugify\<close> adds changes no result). In a render, the identifier of the
  heading at position \<open>k\<close> is what the uniqueness loop makes, against the identifiers of
  the headings before it, of that slug, or of \<^verbatim>\<open>heading-\<close> followed by \<open>k\<close> when
  the slug is empty; where that is not yet used, it is the identifier.
\<close>

theorem slugify_steps:
  "slugify lc text = spec_slug lc text
   \<and> (\<forall>k < length (page_headers p).
         header_ids (generateTOC lc p) ! k
           = uniqueSlug_loop (rev (take k (header_ids (generateTOC lc p))))
               (fallback_slug lc (page_headers p ! k) k) 1 (fallback_slug lc (page_headers p ! k) k)
         \<and> (fallback_slug lc (page_headers p ! k) k \<notin> set (take k (header_ids (generateTOC lc p)))
              \<longrightarrow> header_ids (generateTOC lc p) ! k = fallback_slug lc (page_headers p ! k) k))"
proof -
  have f: "\<And>h k. fallback_slug lc h k = heading_slug lc h k"
    by (simp add: fallback_slug_def heading_slug_def slugify_spec_slug)
  have n: "\<And>k. k < length (page_headers p) \<Longrightarrow>
      header_ids (generateTOC lc p) ! k
           = uniqueSlug_loop (rev (take k (header_ids (generateTOC lc p))))
               (fallback_slug lc (page_headers p ! k) k) 1 (fallback_slug lc (page_headers p ! k) k)"
    using toc_loop_nth[of _ "page_headers p" lc 0 "[]"]
    by (simp add: header_ids_generateTOC page_headers_def[symmetric] toc_loop_length f take_map)
  have u: "\<And>k. k < length (page_headers p) \<Longrightarrow>
      fallback_slug lc (page_headers p ! k) k \<notin> set (take k (header_ids (generateTOC lc p)))
      \<Longrightarrow> header_ids (generateTOC lc p) ! k = fallback_slug lc (page_headers p ! k) k"
    using n by (simp add: uniqueSlug_loop_unused del: One_nat_def)
  from n u slugify_spec_slug show ?thesis by blast
qed

text \<open>
  Claim C3 at a text with white space at both ends, a run of hyphens between white
  space, two characters of the range U+4E00 to U+9FA5 and characters that are stripped;
  and at a page whose second and third heading leave an empty slug: their identifiers
  are \<^verbatim>\<open>heading-1\<close> and \<^verbatim>\<open>heading-2\<close>, after their positions.
\<close>

theorem slugify_steps_witness:
  "slugify ascii_toLowerCase (js ''  A --  B!'' @ [24066, 22330, 233] @ js '' '')
     = js ''a-b'' @ [24066, 22330]
   \<and> header_ids (generateTOC ascii_toLowerCase fallback_page)
     = [js ''intro'', js ''heading-1'', js ''heading-2'']
   \<and> header_ids (generateTOC ascii_toLowerCase fallback_page) ! 1
     = fallback_slug ascii_toLowerCase (page_headers fallback_page ! 1) 1"
proof -
  have s: "spec_slug ascii_toLowerCase (js ''  A --  B!'' @ [24066, 22330, 233] @ js '' '')
      = js ''a-b'' @ [24066, 22330]"
    by (simp add: spec_slug_def js_def ascii_toLowerCase_def is_space_def spec_allowed_def)
  have h: "page_headers fallback_page
      = [Element (js ''h1'') [] [Text (js ''Intro'')], Element (js ''h3'') [] [Text (js ''!?'')],
         Element (js ''h2'') [] [Text (js ''***'')]]"
    by (simp add: page_headers_def fallback_page_def blank_page_def is_heading_tag_def js_def)
  have ids: "header_ids (generateTOC ascii_toLowerCase fallback_page)
     = [js ''intro'', js ''heading-1'', js ''heading-2'']"
    by (simp add: generateTOC_def fallback_page_def blank_page_def is_heading_tag_def Let_def
        js_eval decimal.simps uniqueSlug_loop.simps)
  have f: "fallback_slug ascii_toLowerCase (page_headers fallback_page ! Suc 0) (Suc 0)
      = js ''heading-1''"
    by (simp add: h fallback_slug_def spec_slug_def js_def ascii_toLowerCase_def is_space_def
        spec_allowed_def decimal.simps)
  have n: "Suc 0 < length (page_headers fallback_page)" by (simp add: h)
  have u: "fallback_slug ascii_toLowerCase (page_headers fallback_page ! Suc 0) (Suc 0)
      \<notin> set (take (Suc 0) (header_ids (generateTOC ascii_toLowerCase fallback_page)))"
    by (simp add: f ids js_def)
  note inst = slugify_steps[of ascii_toLowerCase
      "js ''  A --  B!'' @ [24066, 22330, 233] @ js '' ''" fallback_page]
  from inst have t: "slugify ascii_toLowerCase (js ''  A --  B!'' @ [24066, 22330, 233] @ js '' '')
      = spec_slug ascii_toLowerCase (js ''  A --  B!'' @ [24066, 22330, 233] @ js '' '')"
    by (rule conjunct1)
  from inst n u have k: "header_ids (generateTOC ascii_toLowerCase fallback_page) ! Suc 0
      = fallback_slug ascii_toLowerCase (page_headers fallback_page ! Suc 0) (Suc 0)"
    by blast
  from t s ids k show ?thesis by simp
qed


section \<open>Properties of report resolution\<close>

lemma io_log_log_io [simp]: "io_log (log_io x p) = io_log p @ [x]"
  by (simp add: log_io_def)

lemma tocContainer_log_io [simp]: "tocContainer (log_io x p) = tocContainer p"
  by (simp add: log_io_def)

lemma contentContainer_showError [simp]:
  "contentContainer (showError p m) = ErrorState m (js ''cases.html'')"
  by (simp add: showError_def)

lemma io_log_showError [simp]: "io_log (showError p m) = io_log p"
  by (simp add: showError_def)

lemma tocContainer_showError [simp]: "tocContainer (showError p m) = tocContainer p"
  by (simp add: showError_def)

lemma io_log_renderMarkdown [simp]: "io_log (renderMarkdown e p md) = io_log p"
  by (simp add: renderMarkdown_def generateTOC_def Let_def split: option.splits)

lemma io_log_update_metadata [simp]: "io_log (update_metadata r p) = io_log p"
  by (simp add: update_metadata_def)

lemma tocContainer_update_metadata [simp]: "tocContainer (update_metadata r p) = tocContainer p"
  by (simp add: update_metadata_def)

text \<open>The lookup adds to the log the two reads and the request for the index, at most.\<close>

lemma lookup_report_log:
  "lookup_report e i p = (res, p1) \<Longrightarrow>
   \<exists>xs. io_log p1 = io_log p @ xs
      \<and> set xs \<subseteq> {ReadLocalStorage, ReadReportsData, FetchIndex (now e)}"
  by (auto simp: lookup_report_def Let_def
      split: sum.splits option.splits fetched.splits if_splits)

lemma lookup_report_toc:
  "lookup_report e i p = (res, p1) \<Longrightarrow> tocContainer p1 = tocContainer p"
  by (auto simp: lookup_report_def Let_def
      split: sum.splits option.splits fetched.splits if_splits)

text \<open>
  Claim C1. With a readable local store the lookup goes through the sources in the
  order local store, \<^verbatim>\<open>window.reportsData\<close>, index request: a match in the local
  store is returned after the read of the local store only; without one, a match in
  \<^verbatim>\<open>window.reportsData\<close> is returned with no request made; without that one
  either, the index is requested and the match in a successful response is returned. In
  each source the record returned is the first whose \<^verbatim>\<open>id\<close> equals the identifier.
\<close>

theorem lookup_order:
  assumes "parse_my_reports (my_reports e) = Inr localReports"
  shows "(find_report i localReports = Some r \<longrightarrow>
            lookup_report e i p = (Inr (Some r), log_io ReadLocalStorage p))
       \<and> (find_report i localReports = None \<and> reportsData e = Some windowReports
            \<and> find_report i windowReports = Some r \<longrightarrow>
            lookup_report e i p
              = (Inr (Some r), log_io ReadReportsData (log_io ReadLocalStorage p)))
       \<and> (find_report i localReports = None
            \<and> (reportsData e = None \<or> (\<exists>ws. reportsData e = Some ws \<and> find_report i ws = None))
            \<and> index_response e = Response True (Some staticReports) \<longrightarrow>
            lookup_report e i p = (Inr (find_report i staticReports),
              log_io (FetchIndex (now e)) (log_io ReadReportsData (log_io ReadLocalStorage p))))
       \<and> (find_report i xs = Some r \<longleftrightarrow>
            (\<exists>k < length xs. xs ! k = r \<and> rid r = i \<and> (\<forall>j < k. rid (xs ! j) \<noteq> i)))"
proof -
  have local: "(if 0 < length localReports then localReports else []) = localReports"
    by simp
  have a: "find_report i localReports = Some r \<longrightarrow>
            lookup_report e i p = (Inr (Some r), log_io ReadLocalStorage p)"
    using assms by (simp add: lookup_report_def local Let_def)
  have b: "find_report i localReports = None \<and> reportsData e = Some windowReports
            \<and> find_report i windowReports = Some r \<longrightarrow>
            lookup_report e i p
              = (Inr (Some r), log_io ReadReportsData (log_io ReadLocalStorage p))"
    using assms by (simp add: lookup_report_def local Let_def)
  have c: "find_report i localReports = None
            \<and> (reportsData e = None \<or> (\<exists>ws. reportsData e = Some ws \<and> find_report i ws = None))
            \<and> index_response e = Response True (Some staticReports) \<longrightarrow>
            lookup_report e i p = (Inr (find_report i staticReports),
              log_io (FetchIndex (now e)) (log_io ReadReportsData (log_io ReadLocalStorage p)))"
    using assms by (auto simp: lookup_report_def local Let_def)
  have d: "find_report i xs = Some r \<longleftrightarrow>
            (\<exists>k < length xs. xs ! k = r \<and> rid r = i \<and> (\<forall>j < k. rid (xs ! j) \<noteq> i))"
    by (auto simp: find_report_def find_Some_iff)
  from a b c d show ?thesis by blast
qed

text \<open>
  Claim C1 at a local store that holds the record \<^verbatim>\<open>abc\<close>: it is returned after the
  read of the local store only.
\<close>

theorem lookup_order_witness:
  "lookup_report (scenario_env (Some (js ''abc'')) (Items [report_abc])) (js ''abc'') blank_page
     = (Inr (Some report_abc), log_io ReadLocalStorage blank_page)"
  using lookup_order[of "scenario_env (Some (js ''abc'')) (Items [report_abc])" "[report_abc]"
      "js ''abc''" report_abc blank_page]
  by (simp add: scenario_env_def find_report_def report_abc_def)

text \<open>
  Claim C4. An identifier that no source holds ends in an error state with the link to
  \<^verbatim>\<open>cases.html\<close>, whatever the sources answer: every exception of the \<^verbatim>\<open>try\<close>
  block is a value that \<open>initReport\<close> turns into that state. When the local store is
  readable and the index request is answered (with a list without the identifier, or
  with a status that is not a success, such as 404), the state is "Report not found" and
  no exception was raised.
\<close>

theorem absent_id_not_found:
  assumes "url_id e = Some i" "i \<noteq> []"
    and "\<forall>xs. my_reports e = Items xs \<longrightarrow> find_report i xs = None"
    and "\<forall>ws. reportsData e = Some ws \<longrightarrow> find_report i ws = None"
    and "\<forall>rs. index_response e = Response True (Some rs) \<longrightarrow> find_report i rs = None"
  shows "(\<exists>message. contentContainer (initReport e p) = ErrorState message (js ''cases.html''))
       \<and> (my_reports e \<noteq> BadJson \<and> index_response e \<noteq> Rejected
            \<and> index_response e \<noteq> Response True None \<longrightarrow>
          contentContainer (initReport e p)
            = ErrorState (js ''Report not found'') (js ''cases.html'')
          \<and> initReport_try e i p = (None, initReport e p))"
proof -
  have nf: "falsy (url_id e) = False" using assms(1,2) by (simp add: falsy_def)
  have local: "\<And>xs. parse_my_reports (my_reports e) = Inr xs \<Longrightarrow> find_report i xs = None"
    using assms(3) by (cases "my_reports e") (auto simp: find_report_def)
  have res: "fst (lookup_report e i p) = Inr None \<or> (\<exists>x. fst (lookup_report e i p) = Inl x)"
    using assms(4,5) local
    by (auto simp: lookup_report_def Let_def split: sum.splits option.splits fetched.splits)
  have a: "\<exists>message. contentContainer (initReport e p) = ErrorState message (js ''cases.html'')"
    using res nf assms(1)
    by (cases "lookup_report e i p") (auto simp: initReport_def initReport_try_def)
  have ok: "my_reports e \<noteq> BadJson \<and> index_response e \<noteq> Rejected
            \<and> index_response e \<noteq> Response True None \<longrightarrow> fst (lookup_report e i p) = Inr None"
    using assms(4,5) local
    by (cases "my_reports e")
       (auto simp: lookup_report_def Let_def split: sum.splits option.splits fetched.splits)
  have b: "my_reports e \<noteq> BadJson \<and> index_response e \<noteq> Rejected
            \<and> index_response e \<noteq> Response True None \<longrightarrow>
          contentContainer (initReport e p)
            = ErrorState (js ''Report not found'') (js ''cases.html'')
          \<and> initReport_try e i p = (None, initReport e p)"
    using ok nf assms(1)
    by (cases "lookup_report e i p") (auto simp: initReport_def initReport_try_def)
  from a b show ?thesis by blast
qed

text \<open>
  Claim C4 at the identifier \<^verbatim>\<open>does-not-exist\<close>, an empty local store, no preloaded
  collection and an index request answered 404.
\<close>

theorem absent_id_not_found_witness:
  "contentContainer (initReport (scenario_env (Some (js ''does-not-exist'')) NoItem) blank_page)
     = ErrorState (js ''Report not found'') (js ''cases.html'')"
  using absent_id_not_found[of "scenario_env (Some (js ''does-not-exist'')) NoItem"
      "js ''does-not-exist''" blank_page]
  by (simp add: scenario_env_def js_def)

text \<open>
  Claim C6. For the record matched by the lookup: when its content is present and not
  empty, that content is rendered and nothing is added to the log after the lookup, so
  no document is requested; when the content is missing or empty, the document at
  \<^verbatim>\<open>markdown_path\<close> is requested, a response that is not a success throws the error
  "Unable to load report content", which leaves the view in the error state, and a
  successful response is rendered.
\<close>

theorem inline_content_no_fetch:
  assumes "url_id e = Some i" "i \<noteq> []" "lookup_report e i p = (Inr (Some r), p1)"
  shows "(\<not> falsy (content r) \<longrightarrow>
            initReport e p = renderMarkdown e (update_metadata r p1) (the (content r))
            \<and> io_log (initReport e p) = io_log p1
            \<and> (\<forall>u. FetchText u \<in> set (io_log (initReport e p)) \<longrightarrow> FetchText u \<in> set (io_log p)))
       \<and> (falsy (content r) \<longrightarrow>
            io_log (snd (initReport_try e i p)) = io_log p1 @ [FetchText (markdown_path r)]
            \<and> (\<forall>body. fetch_text e (markdown_path r) = Response False body \<longrightarrow>
                  fst (initReport_try e i p) = Some (Error (js ''Unable to load report content''))
                  \<and> contentContainer (initReport e p) = ErrorState
                      (js ''Bummer! Failed to load report. Please refresh and try again.'')
                      (js ''cases.html''))
            \<and> (\<forall>body. fetch_text e (markdown_path r) = Response True body \<longrightarrow>
                  initReport e p = renderMarkdown e
                    (log_io (FetchText (markdown_path r)) (update_metadata r p1)) body))"
proof -
  have nf: "falsy (url_id e) = False" using assms(1,2) by (simp add: falsy_def)
  obtain xs where xs: "io_log p1 = io_log p @ xs"
      "set xs \<subseteq> {ReadLocalStorage, ReadReportsData, FetchIndex (now e)}"
    using lookup_report_log[OF assms(3)] by blast
  have a: "\<not> falsy (content r) \<longrightarrow>
            initReport e p = renderMarkdown e (update_metadata r p1) (the (content r))
            \<and> io_log (initReport e p) = io_log p1"
    using nf assms by (simp add: initReport_def initReport_try_def load_content_def)
  have a': "\<not> falsy (content r) \<longrightarrow>
            (\<forall>u. FetchText u \<in> set (io_log (initReport e p)) \<longrightarrow> FetchText u \<in> set (io_log p))"
    using a xs by auto
  have b: "falsy (content r) \<longrightarrow>
            io_log (snd (initReport_try e i p)) = io_log p1 @ [FetchText (markdown_path r)]"
    using assms
    by (auto simp: initReport_try_def load_content_def Let_def split: fetched.splits)
  have c: "falsy (content r) \<longrightarrow>
           (\<forall>body. fetch_text e (markdown_path r) = Response False body \<longrightarrow>
                  fst (initReport_try e i p) = Some (Error (js ''Unable to load report content''))
                  \<and> contentContainer (initReport e p) = ErrorState
                      (js ''Bummer! Failed to load report. Please refresh and try again.'')
                      (js ''cases.html''))"
    using nf assms
    by (auto simp: initReport_def initReport_try_def load_content_def Let_def)
  have d: "falsy (content r) \<longrightarrow>
           (\<forall>body. fetch_text e (markdown_path r) = Response True body \<longrightarrow>
                  initReport e p = renderMarkdown e
                    (log_io (FetchText (markdown_path r)) (update_metadata r p1)) body)"
    using nf assms
    by (auto simp: initReport_def initReport_try_def load_content_def Let_def)
  from a a' b c d show ?thesis by blast
qed

text \<open>
  Claim C6 at a local store that holds the record \<^verbatim>\<open>abc\<close> with its content: the
  content is rendered, and the log holds the read of the local store only.
\<close>

theorem inline_content_no_fetch_witness:
  "io_log (initReport (scenario_env (Some (js ''abc'')) (Items [report_abc])) blank_page)
     = [ReadLocalStorage]
   \<and> initReport (scenario_env (Some (js ''abc'')) (Items [report_abc])) blank_page
     = renderMarkdown (scenario_env (Some (js ''abc'')) (Items [report_abc]))
         (update_metadata report_abc (log_io ReadLocalStorage blank_page))
         (js ''# Market Overview'')"
proof -
  have l: "lookup_report (scenario_env (Some (js ''abc'')) (Items [report_abc])) (js ''abc'')
      blank_page = (Inr (Some report_abc), log_io ReadLocalStorage blank_page)"
    by (simp add: lookup_report_def scenario_env_def find_report_def report_abc_def Let_def)
  have i: "url_id (scenario_env (Some (js ''abc'')) (Items [report_abc])) = Some (js ''abc'')"
    by (simp add: scenario_env_def)
  have n: "js ''abc'' \<noteq> []" by (simp add: js_def)
  have c: "\<not> falsy (content report_abc)" by (simp add: falsy_def report_abc_def js_def)
  from inline_content_no_fetch[OF i n l] c show ?thesis
    by (simp add: blank_page_def report_abc_def)
qed


section \<open>Properties of rendering and of the navigation state\<close>

lemma count_active_inactive:
  "count_active (map (\<lambda>link. link\<lparr>link_active := False\<rparr>) links) = 0"
  by (simp add: count_active_def)

lemma count_active_update:
  "count_active links = 0 \<Longrightarrow> count_active (links[k := x]) \<le> 1"
  by (induction links arbitrary: k) (auto simp: count_active_def split: nat.splits if_splits)

lemma updateActiveLink_at_most_one: "count_active (tocContainer (updateActiveLink p k)) \<le> 1"
  using count_active_update[OF count_active_inactive]
  by (simp add: updateActiveLink_def Let_def count_active_inactive)

lemma updateActiveLink_exact:
  "k < length (tocContainer p) \<Longrightarrow> j < length (tocContainer p) \<Longrightarrow>
   link_active (tocContainer (updateActiveLink p k) ! j) \<longleftrightarrow> j = k"
  by (simp add: updateActiveLink_def Let_def nth_list_update)

lemma observe_entry_at_most_one:
  "count_active (tocContainer p) \<le> 1 \<Longrightarrow>
   count_active (tocContainer (observe_entry p entry)) \<le> 1"
  by (simp add: observe_entry_def updateActiveLink_at_most_one del: One_nat_def
      split: option.splits)

lemma observe_entries_at_most_one:
  "count_active (tocContainer p) \<le> 1 \<Longrightarrow>
   count_active (tocContainer (foldl observe_entry p entries)) \<le> 1"
  by (induction entries arbitrary: p) (simp_all add: observe_entry_at_most_one del: One_nat_def)

lemma handle_event_at_most_one:
  "count_active (tocContainer p) \<le> 1 \<Longrightarrow> count_active (tocContainer (handle_event p ev)) \<le> 1"
  by (cases ev)
     (simp_all add: updateActiveLink_at_most_one observe_entries_at_most_one del: One_nat_def)

lemma handle_events_at_most_one:
  "count_active (tocContainer p) \<le> 1 \<Longrightarrow>
   count_active (tocContainer (foldl handle_event p events)) \<le> 1"
  by (induction events arbitrary: p) (simp_all add: handle_event_at_most_one del: One_nat_def)

lemma count_active_toc_loop: "count_active (map snd (toc_loop lc hs i used)) = 0"
  by (induction hs arbitrary: i used) (simp_all add: count_active_def Let_def)

lemma count_active_activate_first:
  "count_active links = 0 \<Longrightarrow>
   count_active (activate_first links) = (if links = [] then 0 else 1)"
  by (cases links) (auto simp: count_active_def split: if_splits)

lemma tocContainer_renderMarkdown:
  "marked e = Some parse \<Longrightarrow>
   tocContainer (renderMarkdown e p md) = activate_first (map snd (toc_loop (toLowerCase e)
      (concat (map select_headings (drop_loading_state (parse marked_use md)))) 0 []))"
  by (simp add: renderMarkdown_def Let_def tocContainer_generateTOC)

lemma renderMarkdown_at_most_one:
  "count_active (tocContainer p) \<le> 1 \<Longrightarrow>
   count_active (tocContainer (renderMarkdown e p md)) \<le> 1"
proof (cases "marked e")
  case None
  then show "count_active (tocContainer p) \<le> 1 \<Longrightarrow> ?thesis" by (simp add: renderMarkdown_def)
next
  case (Some parse)
  show ?thesis
    by (simp add: tocContainer_renderMarkdown[OF Some]
        count_active_activate_first[OF count_active_toc_loop])
qed

lemma initReport_try_at_most_one:
  "count_active (tocContainer p) \<le> 1 \<Longrightarrow>
   count_active (tocContainer (snd (initReport_try e i p))) \<le> 1"
  by (auto simp: initReport_try_def load_content_def Let_def renderMarkdown_at_most_one
      lookup_report_toc simp del: One_nat_def
      split: prod.splits sum.splits option.splits fetched.splits if_splits)

lemma initReport_at_most_one:
  "count_active (tocContainer p) \<le> 1 \<Longrightarrow> count_active (tocContainer (initReport e p)) \<le> 1"
  using initReport_try_at_most_one[of p e "the (url_id e)"]
  by (auto simp: initReport_def loadSampleMarkdown_def renderMarkdown_at_most_one
      simp del: One_nat_def split: prod.splits option.splits)

text \<open>
  Claim C8. After \<open>updateActiveLink\<close> at most one entry is active, whatever was active
  before: every entry is deactivated first, and when the anchor is in the table it is
  the one active entry. A click, a callback of the observer, a render and the whole of
  \<open>initReport\<close> followed by any events keep the table at no more than one active entry.
\<close>

theorem at_most_one_active:
  "count_active (tocContainer (updateActiveLink p k)) \<le> 1
   \<and> (\<forall>j. k < length (tocContainer p) \<and> j < length (tocContainer p) \<longrightarrow>
         (link_active (tocContainer (updateActiveLink p k) ! j) \<longleftrightarrow> j = k))
   \<and> (count_active (tocContainer p) \<le> 1 \<longrightarrow>
         count_active (tocContainer (handle_event p ev)) \<le> 1
         \<and> count_active (tocContainer (renderMarkdown e p md)) \<le> 1
         \<and> count_active (tocContainer (foldl handle_event (initReport e p) events)) \<le> 1)"
  using updateActiveLink_at_most_one[of p k] updateActiveLink_exact[of k p]
    handle_event_at_most_one[of p ev] renderMarkdown_at_most_one[of p e md]
    handle_events_at_most_one[OF initReport_at_most_one, of p e events]
  by blast

text \<open>
  Claim C8 at a table of two entries with the first active: a click on the second
  leaves the second active and the first not.
\<close>

theorem at_most_one_active_witness:
  "count_active (tocContainer two_links_page) \<le> 1
   \<and> map link_active (tocContainer (handle_event two_links_page (Click 1))) = [False, True]
   \<and> count_active (tocContainer (handle_event two_links_page (Click 1))) \<le> 1
   \<and> count_active (tocContainer (foldl handle_event
         (initReport (scenario_env None NoItem) two_links_page)
         [Click 1, Intersect [(0, True)]])) \<le> 1"
proof -
  have c: "count_active (tocContainer two_links_page) \<le> 1"
    by (simp add: two_links_page_def blank_page_def count_active_def)
  have m: "map link_active (tocContainer (handle_event two_links_page (Click 1))) = [False, True]"
    by (simp add: two_links_page_def blank_page_def updateActiveLink_def)
  from at_most_one_active[of two_links_page 1 "Click 1" "scenario_env None NoItem" "[]"
      "[Click 1, Intersect [(0, True)]]"] c m
  show ?thesis by simp
qed

text \<open>
  Claim C9. Rendering a document again on the page the first render left gives the same
  page: the table of contents has the same number of entries, the headings the same
  identifiers and the anchors the same targets.
\<close>

theorem render_twice_same_toc:
  "renderMarkdown e (renderMarkdown e p md) md = renderMarkdown e p md
   \<and> length (tocContainer (renderMarkdown e (renderMarkdown e p md) md))
       = length (tocContainer (renderMarkdown e p md))
   \<and> header_ids (renderMarkdown e (renderMarkdown e p md) md) = header_ids (renderMarkdown e p md)
   \<and> map link_href (tocContainer (renderMarkdown e (renderMarkdown e p md) md))
       = map link_href (tocContainer (renderMarkdown e p md))
   \<and> header_ids (renderMarkdown e p' md) = header_ids (renderMarkdown e p md)
   \<and> (marked e \<noteq> None \<longrightarrow>
         tocContainer (renderMarkdown e p' md) = tocContainer (renderMarkdown e p md))"
proof -
  have a: "renderMarkdown e (renderMarkdown e p md) md = renderMarkdown e p md"
    by (cases "marked e") (simp_all add: renderMarkdown_def showError_def generateTOC_def Let_def)
  have b: "header_ids (renderMarkdown e p' md) = header_ids (renderMarkdown e p md)"
    by (cases "marked e") (simp_all add: renderMarkdown_def showError_def generateTOC_def Let_def)
  have c: "marked e \<noteq> None \<longrightarrow>
         tocContainer (renderMarkdown e p' md) = tocContainer (renderMarkdown e p md)"
    by (auto simp: tocContainer_renderMarkdown)
  from a b c show ?thesis by simp
qed

text \<open>
  Claim C9 at a document of two headings of one text, rendered on a blank page and
  again on the page that render left.
\<close>

theorem render_twice_same_toc_witness:
  "header_ids (renderMarkdown (scenario_env None NoItem)
       (renderMarkdown (scenario_env None NoItem) blank_page (js ''# A\<newline># A''))
       (js ''# A\<newline># A''))
     = header_ids (renderMarkdown (scenario_env None NoItem) blank_page (js ''# A\<newline># A''))
   \<and> header_ids (renderMarkdown (scenario_env None NoItem) blank_page (js ''# A\<newline># A''))
     = [js ''a'', js ''a-1'']
   \<and> tocContainer (renderMarkdown (scenario_env None NoItem) two_links_page (js ''# A\<newline># A''))
     = tocContainer (renderMarkdown (scenario_env None NoItem) blank_page (js ''# A\<newline># A''))"
proof -
  have m: "marked (scenario_env None NoItem) \<noteq> None" by (simp add: scenario_env_def)
  have h: "header_ids (renderMarkdown (scenario_env None NoItem) blank_page (js ''# A\<newline># A''))
     = [js ''a'', js ''a-1'']"
    by (simp add: renderMarkdown_def scenario_env_def headings_renderer_def atx_heading_def
        List.map_filter_def drop_loading_state_def generateTOC_def is_heading_tag_def Let_def
        js_eval decimal.simps uniqueSlug_loop.simps)
  from render_twice_same_toc[of "scenario_env None NoItem" blank_page "js ''# A\<newline># A''"
      two_links_page] m h
  show ?thesis by simp
qed













text \<open>
  Claim C5. What \<open>renderMarkdown\<close> shows is the output of the renderer under the options
  \<^verbatim>\<open>gfm\<close>, \<^verbatim>\<open>breaks\<close> and an unchanged default renderer, less the first element of
  class \<^verbatim>\<open>loading-state\<close>: the program itself takes no element out that the renderer
  lets through, for any document, the text \<^verbatim>\<open><img src=x onerror=alert(1)>\<close>
  included.
\<close>

theorem renderMarkdown_shows_parser_output:
  "marked e = Some parse \<Longrightarrow>
   contentContainer (renderMarkdown e p md) = Document (drop_loading_state (parse marked_use md))
   \<and> marked_use = \<lparr>gfm = True, breaks = True, renderer = DefaultRenderer\<rparr>"
  by (simp add: renderMarkdown_def generateTOC_def Let_def marked_use_def)

text \<open>Claim C5 at a document of one heading, with the stand-in renderer.\<close>

theorem renderMarkdown_shows_parser_output_witness:
  "contentContainer (renderMarkdown (scenario_env None NoItem) blank_page (js ''# A''))
     = Document [Element (js ''h1'') [] [Text (js ''A'')]]"
proof -
  have m: "marked (scenario_env None NoItem) = Some headings_renderer"
    by (simp add: scenario_env_def)
  have h: "drop_loading_state (headings_renderer marked_use (js ''# A''))
     = [Element (js ''h1'') [] [Text (js ''A'')]]"
    by (simp add: headings_renderer_def atx_heading_def List.map_filter_def
        drop_loading_state_def js_def decimal.simps)
  from renderMarkdown_shows_parser_output[OF m, of blank_page "js ''# A''"] h
  show ?thesis by simp
qed


section \<open>Properties of validateAsins\<close>

lemma split_separators_none:
  "\<forall>x \<in> set s. \<not> is_separator x \<Longrightarrow> split_separators s = [s]"
  by (subst split_separators.simps) simp

lemma split_separators_some:
  "\<not> (\<forall>x \<in> set s. \<not> is_separator x) \<Longrightarrow>
   split_separators s = takeWhile (\<lambda>c. \<not> is_separator c) s
     # split_separators (dropWhile is_separator (dropWhile (\<lambda>c. \<not> is_separator c) s))"
  by (subst split_separators.simps) auto

lemma tokens_Nil [simp]: "tokens [] = []"
  by (simp add: tokens_def split_separators_none)

lemma tokens_leading: "is_separator c \<Longrightarrow> tokens (c # s) = tokens (dropWhile is_separator s)"
  by (simp add: tokens_def split_separators_some[of "c # s"])

lemma tokens_dropWhile: "tokens (dropWhile is_separator s) = tokens s"
proof (cases s)
  case Nil
  then show ?thesis by simp
next
  case (Cons c cs)
  then show ?thesis by (cases "is_separator c") (simp_all add: tokens_leading)
qed

lemma dropWhile_dropWhile_space:
  "dropWhile is_separator (dropWhile is_space s) = dropWhile is_separator s"
  by (induction s) (auto simp: is_separator_def)

lemma tokens_dropWhile_space: "tokens (dropWhile is_space s) = tokens s"
  using tokens_dropWhile[of "dropWhile is_space s"] tokens_dropWhile[of s]
  by (simp add: dropWhile_dropWhile_space)

lemma dropWhile_snoc_all: "\<forall>x \<in> set r. P x \<Longrightarrow> P c \<Longrightarrow> dropWhile P (r @ [c]) = []"
  by simp

lemma dropWhile_snoc_some:
  "\<not> (\<forall>x \<in> set r. P x) \<Longrightarrow> dropWhile P (r @ [c]) = dropWhile P r @ [c]"
  by (auto simp: dropWhile_append)

lemma tokens_snoc: "is_separator c \<Longrightarrow> tokens (s @ [c]) = tokens s"
proof (induction s rule: split_separators.induct)
  case (1 s)
  let ?t = "takeWhile (\<lambda>c. \<not> is_separator c) s"
  let ?r = "dropWhile (\<lambda>c. \<not> is_separator c) s"
  show ?case
  proof (cases "?r = []")
    case True
    then have all: "\<forall>x \<in> set s. \<not> is_separator x" by simp
    then have "dropWhile (\<lambda>c. \<not> is_separator c) (s @ [c]) = [c]"
      "takeWhile (\<lambda>c. \<not> is_separator c) (s @ [c]) = s"
      using 1(2) by (simp_all add: dropWhile_append takeWhile_append)
    then have "split_separators (s @ [c]) = [s, []]"
      using 1(2) by (simp add: split_separators_some[of "s @ [c]"] split_separators_none[of "[]"])
    moreover have "split_separators s = [s]" using all by (rule split_separators_none)
    ultimately show ?thesis by (simp add: tokens_def)
  next
    case False
    then have nall: "\<not> (\<forall>x \<in> set s. \<not> is_separator x)" by simp
    then have d: "dropWhile (\<lambda>c. \<not> is_separator c) (s @ [c]) = ?r @ [c]"
      and t: "takeWhile (\<lambda>c. \<not> is_separator c) (s @ [c]) = ?t"
      by (auto simp: dropWhile_append takeWhile_append)
    have s1: "split_separators (s @ [c]) = ?t # split_separators (dropWhile is_separator (?r @ [c]))"
      using nall d t by (simp add: split_separators_some[of "s @ [c]"])
    have s2: "split_separators s = ?t # split_separators (dropWhile is_separator ?r)"
      using nall by (rule split_separators_some)
    show ?thesis
    proof (cases "\<forall>x \<in> set ?r. is_separator x")
      case True
      have "dropWhile is_separator (?r @ [c]) = []"
        using True 1(2) by (rule dropWhile_snoc_all)
      moreover have "dropWhile is_separator ?r = []"
        using True by (rule dropWhile_all)
      ultimately show ?thesis by (simp only: s1 s2 tokens_def)
    next
      case F: False
      have "dropWhile is_separator (?r @ [c]) = dropWhile is_separator ?r @ [c]"
        using F by (rule dropWhile_snoc_some)
      then have "split_separators (s @ [c])
          = ?t # split_separators (dropWhile is_separator ?r @ [c])"
        by (simp only: s1)
      moreover have "tokens (dropWhile is_separator ?r @ [c]) = tokens (dropWhile is_separator ?r)"
        using False 1(2) by (rule 1(1))
      ultimately show ?thesis by (simp only: s2 tokens_def filter.simps)
    qed
  qed
qed

lemma tokens_trailing: "\<forall>w \<in> set ws. is_separator w \<Longrightarrow> tokens (s @ ws) = tokens s"
proof (induction ws rule: rev_induct)
  case Nil
  show ?case by simp
next
  case (snoc w ws)
  then show ?case using tokens_snoc[of w "s @ ws"] by simp
qed

lemma tokens_drop_trailing: "tokens (drop_trailing is_space s) = tokens s"
proof -
  obtain ws where ws: "s = drop_trailing is_space s @ ws" "\<forall>w \<in> set ws. is_space w"
    using drop_trailing_decomp[of s is_space] by blast
  then have "\<forall>w \<in> set ws. is_separator w" by (simp add: is_separator_def)
  from tokens_trailing[OF this, of "drop_trailing is_space s"] ws(1) show ?thesis by simp
qed

lemma tokens_trim: "tokens (trim s) = tokens s"
  by (simp add: trim_def tokens_drop_trailing tokens_dropWhile_space)

lemma split_separators_clean:
  "t \<in> set (split_separators s) \<Longrightarrow> \<forall>c \<in> set t. \<not> is_separator c"
proof (induction s rule: split_separators.induct)
  case (1 s)
  show ?case
  proof (cases "dropWhile (\<lambda>c. \<not> is_separator c) s = []")
    case True
    then have "\<forall>x \<in> set s. \<not> is_separator x" by simp
    with 1(2) show ?thesis by (simp add: split_separators_none)
  next
    case False
    then have "\<not> (\<forall>x \<in> set s. \<not> is_separator x)" by simp
    with 1(2) have "t = takeWhile (\<lambda>c. \<not> is_separator c) s
      \<or> t \<in> set (split_separators (dropWhile is_separator (dropWhile (\<lambda>c. \<not> is_separator c) s)))"
      by (simp add: split_separators_some[of s])
    then show ?thesis
    proof
      assume "t = takeWhile (\<lambda>c. \<not> is_separator c) s"
      then show ?thesis by (auto dest: set_takeWhileD)
    next
      assume "t \<in> set (split_separators (dropWhile is_separator (dropWhile (\<lambda>c. \<not> is_separator c) s)))"
      with 1(1)[OF False] show ?thesis by simp
    qed
  qed
qed

lemma trim_clean: "\<forall>c \<in> set t. \<not> is_space c \<Longrightarrow> trim t = t"
proof -
  assume a: "\<forall>c \<in> set t. \<not> is_space c"
  then have "dropWhile is_space t = t" by (cases t) simp_all
  moreover have "dropWhile is_space (rev t) = rev t" using a by (cases "rev t") (simp, metis dropWhile.simps(2) list.set_intros(1) set_rev)
  ultimately show ?thesis by (simp add: trim_def drop_trailing_def)
qed

lemma trim_token: "t \<in> set (split_separators s) \<Longrightarrow> trim t = t"
  using split_separators_clean[of t s] by (intro trim_clean) (auto simp: is_separator_def)

text \<open>
  For a \<^verbatim>\<open>toUpperCase\<close> that maps the empty string, and no other, to the empty string:
  the validation as the claim words it holds exactly when \<open>validateAsins\<close> returns true
  and the competitor field has a token.
\<close>

lemma validateAsins_vs_claim:
  assumes "\<And>s. uc s = [] \<longleftrightarrow> s = []"
  shows "spec_validateAsins uc mainValue compValue \<longleftrightarrow>
     validateAsins uc mainValue compValue \<and> filter (\<lambda>t. t \<noteq> []) (split_separators compValue) \<noteq> []"
proof -
  have m: "\<And>s. filter (\<lambda>t. t \<noteq> []) (map (\<lambda>t. uc (trim t)) (split_separators s))
      = map uc (tokens s)"
  proof -
    fix s
    have "map (\<lambda>t. uc (trim t)) (split_separators s) = map uc (split_separators s)"
      by (rule map_cong) (simp_all add: trim_token)
    then have "filter (\<lambda>t. t \<noteq> []) (map (\<lambda>t. uc (trim t)) (split_separators s))
        = filter (\<lambda>t. t \<noteq> []) (map uc (split_separators s))"
      by (simp only:)
    also have "\<dots> = map uc (tokens s)"
      by (simp add: tokens_def filter_map comp_def assms)
    finally show "filter (\<lambda>t. t \<noteq> []) (map (\<lambda>t. uc (trim t)) (split_separators s))
        = map uc (tokens s)" .
  qed
  have t: "\<And>t. t \<in> set (tokens compValue) \<Longrightarrow> trim t = t"
    by (auto simp: tokens_def trim_token)
  have s: "list_all (\<lambda>t. asinRegex_test (uc (trim t))) (tokens compValue)
     = list_all asinRegex_test (map uc (tokens compValue))"
    using t by (auto simp: list_all_iff)
  have ne: "tokens compValue \<noteq> [] \<Longrightarrow> trim compValue \<noteq> []"
    using tokens_trim[of compValue] by auto
  have e: "\<not> asinRegex_test []" by simp
  have f: "\<And>xs. (filter (\<lambda>a. \<not> asinRegex_test a) xs = []) = list_all asinRegex_test xs"
    by (simp add: filter_empty_conv list_all_iff)
  have v: "validateAsins uc mainValue compValue \<longleftrightarrow>
     asinRegex_test (uc (trim mainValue)) \<and> trim compValue \<noteq> [] \<and>
     list_all asinRegex_test (map uc (tokens compValue))"
    using e by (auto simp: validateAsins_def Let_def f m tokens_trim)
  have sp: "spec_validateAsins uc mainValue compValue \<longleftrightarrow>
     asinRegex_test (uc (trim mainValue)) \<and> tokens compValue \<noteq> [] \<and>
     list_all (\<lambda>t. asinRegex_test (uc (trim t))) (tokens compValue)"
    by (simp add: spec_validateAsins_def Let_def tokens_def)
  have fold: "filter (\<lambda>t. t \<noteq> []) (split_separators compValue) = tokens compValue"
    by (simp add: tokens_def)
  show ?thesis
    unfolding sp v s fold using ne by blast
qed

text \<open>What \<open>validateAsins\<close> decides.\<close>

lemma validateAsins_iff:
  "validateAsins uc mainValue compValue \<longleftrightarrow>
     asinRegex_test (uc (trim mainValue)) \<and> trim compValue \<noteq> [] \<and>
     list_all asinRegex_test
       (filter (\<lambda>s. s \<noteq> []) (map (\<lambda>s. uc (trim s)) (split_separators (trim compValue))))"
proof -
  have e: "\<not> asinRegex_test []" by simp
  have f: "\<And>xs. (filter (\<lambda>a. \<not> asinRegex_test a) xs = []) = list_all asinRegex_test xs"
    by (simp add: filter_empty_conv list_all_iff)
  show ?thesis using e
    by (auto simp: validateAsins_def Let_def f)
qed

lemma split_comma: "split_separators [44] = [[], []]"
  by (simp add: split_separators.simps is_separator_def is_space_def)

text \<open>
  Claim C10. With a valid main field and a competitor field that is a single comma,
  \<open>validateAsins\<close> returns true, although the competitor field gives no token.
\<close>

theorem validateAsins_separator_only:
  "validateAsins ascii_toUpperCase (js ''B08CVS825S'') (js '','')
   \<and> \<not> spec_validateAsins ascii_toUpperCase (js ''B08CVS825S'') (js '','')"
proof -
  have t: "trim [44] = [44]" "trim [] = []"
    by (simp_all add: trim_def drop_trailing_def is_space_def)
  have m: "ascii_toUpperCase (trim (js ''B08CVS825S'')) = js ''B08CVS825S''"
    by (simp add: trim_def js_def drop_trailing_def is_space_def ascii_toUpperCase_def)
  have r: "asinRegex_test (js ''B08CVS825S'')"
    by (simp add: js_def is_alnum_def)
  have u: "ascii_toUpperCase [] = []" by (simp add: ascii_toUpperCase_def)
  have j: "js '','' = [44]" "js ''B08CVS825S'' \<noteq> []" by (simp_all add: js_def)
  show ?thesis
    by (simp add: validateAsins_def spec_validateAsins_def m r t u j split_comma Let_def)
qed

end
